theory Spec2Isabelle
  imports Main "HOL-Library.Word" "HOL-Library.AList"
begin

section \<open>JavaScript strings and values\<close>

text \<open>
  A JavaScript string is a sequence of UTF-16 code units. The patterns of
  \<^verbatim>\<open>src/utils/CQcode.mjs\<close> carry no \<^verbatim>\<open>u\<close> flag, so they see code units, and a
  character outside the basic plane is two of them.
\<close>

type_synonym jschar = "16 word"
type_synonym jsstring = "jschar list"

definition js :: "string \<Rightarrow> jsstring" where
  "js s = map of_char s"

abbreviation (input) AMP :: jschar where "AMP \<equiv> 0x26"
abbreviation (input) COMMA :: jschar where "COMMA \<equiv> 0x2C"
abbreviation (input) EQUALS :: jschar where "EQUALS \<equiv> 0x3D"
abbreviation (input) LBRACKET :: jschar where "LBRACKET \<equiv> 0x5B"
abbreviation (input) RBRACKET :: jschar where "RBRACKET \<equiv> 0x5D"
abbreviation (input) SPACE :: jschar where "SPACE \<equiv> 0x20"

text \<open>
  The values a field can hold: \<^verbatim>\<open>undefined\<close>, \<^verbatim>\<open>null\<close>, a string, a number (the
  safe integers, which is what message and user ids are) and the \<^verbatim>\<open>URL\<close>
  object that \<^verbatim>\<open>pathToFileURL\<close> returns, kept as its \<^verbatim>\<open>href\<close>.
\<close>

datatype jsval = Undefined | Null | Str jsstring | Num int | Url jsstring

text \<open>\<^verbatim>\<open>_.isNil\<close>\<close>

fun isNil :: "jsval \<Rightarrow> bool" where
  "isNil Undefined = True"
| "isNil Null = True"
| "isNil _ = False"

function nat_digits :: "nat \<Rightarrow> jsstring" where
  "nat_digits n = (if n < 10 then [0x30 + of_nat n]
                   else nat_digits (n div 10) @ [0x30 + of_nat (n mod 10)])"
  by pat_completeness auto
termination
  by (relation "measure id") auto

declare nat_digits.simps [simp del]

text \<open>
  \<^verbatim>\<open>Number::toString\<close> on a safe integer, one of magnitude at most \<open>2\<^sup>5\<^sup>3 - 1\<close>: the
  decimal digits, with a minus sign for a negative one. Only there is this the
  text JavaScript prints: a larger number prints the shortest digits that read
  back to the same double, filled up with zeros (\<open>2\<^sup>6\<^sup>9\<close> prints
  \<^verbatim>\<open>590295810358705700000\<close>), and from \<open>10\<^sup>2\<^sup>1\<close> on in exponent form (\<^verbatim>\<open>1e+21\<close>).
  What is stated below about the digits of a number is stated for safe integers.
\<close>

definition number_to_string :: "int \<Rightarrow> jsstring" where
  "number_to_string i =
     (if i < 0 then 0x2D # nat_digits (nat (- i)) else nat_digits (nat i))"

text \<open>\<^verbatim>\<open>ToString\<close>, as a template literal applies it.\<close>

fun to_string :: "jsval \<Rightarrow> jsstring" where
  "to_string Undefined = js ''undefined''"
| "to_string Null = js ''null''"
| "to_string (Str s) = s"
| "to_string (Num i) = number_to_string i"
| "to_string (Url href) = href"

text \<open>
  \<^verbatim>\<open>Array.prototype.join\<close>: an element that is \<^verbatim>\<open>undefined\<close> or \<^verbatim>\<open>null\<close> contributes
  the empty string, any other its \<^verbatim>\<open>ToString\<close>.
\<close>

definition join_elem :: "jsval \<Rightarrow> jsstring" where
  "join_elem v = (if isNil v then [] else to_string v)"

fun join :: "jsstring \<Rightarrow> jsval list \<Rightarrow> jsstring" where
  "join sep [] = []"
| "join sep [v] = join_elem v"
| "join sep (v # w # vs) = join_elem v @ sep @ join sep (w # vs)"

text \<open>
  \<^verbatim>\<open>String.prototype.split\<close> with a one-character separator: the pieces between
  the separators, so never an empty array.
\<close>

fun split :: "jschar \<Rightarrow> jsstring \<Rightarrow> jsstring list" where
  "split sep [] = [[]]"
| "split sep (c # s) =
     (if c = sep then [] # split sep s
      else (case split sep s of p # ps \<Rightarrow> (c # p) # ps | [] \<Rightarrow> [[c]]))"

section \<open>Regular expressions\<close>

text \<open>
  The patterns of the module, as terms. \<open>Class neg rs\<close> is a character class of
  ranges, negated when \<open>neg\<close> holds; \<open>Group n\<close> is the \<open>n\<close>-th capturing group.
\<close>

datatype regex =
    Eps
  | Chr jschar
  | Class bool "(jschar \<times> jschar) list"
  | Seq regex regex
  | Alt regex regex
  | Star regex
  | Group nat regex

definition Plus :: "regex \<Rightarrow> regex" where
  "Plus r = Seq r (Star r)"

fun lit :: "jsstring \<Rightarrow> regex" where
  "lit [] = Eps"
| "lit (c # cs) = Seq (Chr c) (lit cs)"

definition in_ranges :: "(jschar \<times> jschar) list \<Rightarrow> jschar \<Rightarrow> bool" where
  "in_ranges rs c = list_ex (\<lambda>(lo, hi). lo \<le> c \<and> c \<le> hi) rs"

definition one :: "jschar \<Rightarrow> jschar \<times> jschar" where
  "one c = (c, c)"

definition class_matches :: "bool \<Rightarrow> (jschar \<times> jschar) list \<Rightarrow> jschar \<Rightarrow> bool" where
  "class_matches neg rs c \<longleftrightarrow> in_ranges rs c \<noteq> neg"

type_synonym captures = "nat \<Rightarrow> jsstring option"
type_synonym mstate = "jsstring \<times> captures"

primrec groups :: "regex \<Rightarrow> nat list" where
  "groups Eps = []"
| "groups (Chr c) = []"
| "groups (Class neg rs) = []"
| "groups (Seq a b) = groups a @ groups b"
| "groups (Alt a b) = groups a @ groups b"
| "groups (Star r) = groups r"
| "groups (Group n r) = n # groups r"

definition clear :: "nat list \<Rightarrow> mstate \<Rightarrow> mstate" where
  "clear ns st = (fst st, (\<lambda>k. if k \<in> set ns then None else snd st k))"

text \<open>
  The backtracking matcher of ECMAScript, with the continuation turned into the
  list of the states the pattern can end in, in the order the matcher would try
  them: the head of the list is the match that \<^verbatim>\<open>exec\<close> reports. A state is the
  text still to read and the captures so far.

  A greedy star first tries one more round (with the captures of its body
  cleared), refusing a round that consumed nothing, and only then stops.
\<close>

function star_iter :: "(mstate \<Rightarrow> mstate list) \<Rightarrow> mstate \<Rightarrow> mstate list" where
  "star_iter m st =
     concat (map (\<lambda>st'. if length (fst st') < length (fst st) then star_iter m st' else [])
                 (m st)) @ [st]"
  by pat_completeness auto
termination
  by (relation "measure (\<lambda>(m, st). length (fst st))") auto

declare star_iter.simps [simp del]

primrec rmatch :: "regex \<Rightarrow> mstate \<Rightarrow> mstate list" where
  "rmatch Eps st = [st]"
| "rmatch (Chr c) st =
     (case fst st of [] \<Rightarrow> [] | x # xs \<Rightarrow> if x = c then [(xs, snd st)] else [])"
| "rmatch (Class neg rs) st =
     (case fst st of [] \<Rightarrow> []
      | x # xs \<Rightarrow> if class_matches neg rs x then [(xs, snd st)] else [])"
| "rmatch (Seq a b) st = concat (map (rmatch b) (rmatch a st))"
| "rmatch (Alt a b) st = rmatch a st @ rmatch b st"
| "rmatch (Star r) st = star_iter (\<lambda>x. rmatch r (clear (groups r) x)) st"
| "rmatch (Group n r) st =
     map (\<lambda>st'. (fst st', (snd st')(n \<mapsto> take (length (fst st) - length (fst st')) (fst st))))
         (rmatch r st)"

text \<open>The match at the start of \<open>s\<close>, if there is one: what is left, and the captures.\<close>

definition first_match :: "regex \<Rightarrow> jsstring \<Rightarrow> mstate option" where
  "first_match r s = (case rmatch r (s, Map.empty) of [] \<Rightarrow> None | m # _ \<Rightarrow> Some m)"

text \<open>
  \<^verbatim>\<open>RegExp.prototype.exec\<close> with the \<^verbatim>\<open>g\<close> flag, from the current \<^verbatim>\<open>lastIndex\<close>: the
  leftmost position where the pattern matches. The patterns here have no anchor
  and no look-behind, so a match depends only on the text from \<^verbatim>\<open>lastIndex\<close> on.
\<close>

fun exec :: "regex \<Rightarrow> jsstring \<Rightarrow> mstate option" where
  "exec r [] = first_match r []"
| "exec r (c # s) =
     (case first_match r (c # s) of Some m \<Rightarrow> Some m | None \<Rightarrow> exec r s)"

text \<open>
  \<^verbatim>\<open>String.prototype.replace\<close> with a global pattern and a replacement string
  that has no \<^verbatim>\<open>$\<close> in it (none of the module's has): every match, left to right
  and non-overlapping, gives way to the replacement; after an empty match the
  scan moves one code unit on.
\<close>

function replace :: "regex \<Rightarrow> jsstring \<Rightarrow> jsstring \<Rightarrow> jsstring" where
  "replace r rep s =
     (case first_match r s of
        Some m \<Rightarrow>
          if length (fst m) < length s then rep @ replace r rep (fst m)
          else rep @ (case s of [] \<Rightarrow> [] | c # t \<Rightarrow> c # replace r rep t)
      | None \<Rightarrow> (case s of [] \<Rightarrow> [] | c # t \<Rightarrow> c # replace r rep t))"
  by pat_completeness auto
termination
  by (relation "measure (\<lambda>(r, rep, s). length s)") auto

declare replace.simps [simp del]

section \<open>Escaping\<close>

text \<open>
  \<^verbatim>\<open>/(\ud83c[\udf00-\udfff])|(\ud83d[\udc00-\ude4f\ude80-\udeff])|[\u2600-\u2B55]/g\<close>
\<close>

definition emoji :: regex where
  "emoji =
     Alt (Group 1 (Seq (Chr 0xD83C) (Class False [(0xDF00, 0xDFFF)])))
    (Alt (Group 2 (Seq (Chr 0xD83D) (Class False [(0xDC00, 0xDE4F), (0xDE80, 0xDEFF)])))
         (Class False [(0x2600, 0x2B55)]))"

text \<open>\<^verbatim>\<open>CQCode.escape\<close> on a string.\<close>

definition escape_str :: "jsstring \<Rightarrow> bool \<Rightarrow> jsstring" where
  "escape_str str insideCQ =
     (let result = replace (Chr RBRACKET) (js ''&#93;'')
                     (replace (Chr LBRACKET) (js ''&#91;'')
                        (replace (Chr AMP) (js ''&amp;'') str))
      in if \<not> insideCQ then result
         else replace emoji [SPACE] (replace (Chr COMMA) (js ''&#44;'') result))"

text \<open>\<^verbatim>\<open>CQCode.escape\<close>: anything that is not a string is returned as it is.\<close>

fun escape :: "jsval \<Rightarrow> bool \<Rightarrow> jsval" where
  "escape (Str str) insideCQ = Str (escape_str str insideCQ)"
| "escape v insideCQ = v"

definition escapeInsideCQ :: "jsval \<Rightarrow> jsval" where
  "escapeInsideCQ v = escape v True"

text \<open>\<^verbatim>\<open>CQCode.unescape\<close> on a string.\<close>

definition unescape_str :: "jsstring \<Rightarrow> jsstring" where
  "unescape_str str =
     replace (lit (js ''&amp;'')) [AMP]
       (replace (lit (js ''&#93;'')) [RBRACKET]
          (replace (lit (js ''&#91;'')) [LBRACKET]
             (replace (lit (js ''&#44;'')) [COMMA] str)))"

fun unescape :: "jsval \<Rightarrow> jsval" where
  "unescape (Str str) = Str (unescape_str str)"
| "unescape v = v"

section \<open>Objects and maps\<close>

text \<open>
  A plain object, as the list of its own properties in the order they were
  created. \<^verbatim>\<open>Object.entries\<close> lists the array-index keys first, in ascending
  numeric order, and the other keys after them in creation order.
\<close>

type_synonym jsobj = "(jsstring \<times> jsval) list"

definition is_digit :: "jschar \<Rightarrow> bool" where
  "is_digit c \<longleftrightarrow> 0x30 \<le> c \<and> c \<le> 0x39"

definition digits_value :: "jsstring \<Rightarrow> int" where
  "digits_value k = foldl (\<lambda>n c. 10 * n + uint (c - 0x30)) 0 k"

text \<open>An array index is the canonical decimal form of a number up to \<open>2\<^sup>3\<^sup>2 - 2\<close>.\<close>

definition is_array_index :: "jsstring \<Rightarrow> bool" where
  "is_array_index k \<longleftrightarrow>
     k \<noteq> [] \<and> list_all is_digit k \<and> (length k = 1 \<or> hd k \<noteq> 0x30) \<and>
     digits_value k \<le> 4294967294"

definition object_entries :: "jsobj \<Rightarrow> (jsstring \<times> jsval) list" where
  "object_entries obj =
     sort_key (\<lambda>kv. digits_value (fst kv)) (filter (\<lambda>kv. is_array_index (fst kv)) obj) @
     filter (\<lambda>kv. \<not> is_array_index (fst kv)) obj"

text \<open>
  \<^verbatim>\<open>obj[k] = v\<close> on an object made by \<^verbatim>\<open>{}\<close>, for a string \<open>v\<close>. The key
  \<^verbatim>\<open>__proto__\<close> reaches the setter of \<^verbatim>\<open>Object.prototype\<close>, which ignores a value
  that is neither an object nor \<^verbatim>\<open>null\<close>: no property is created. Any other key
  is created, or overwritten where it stands.
\<close>

definition obj_assign :: "jsobj \<Rightarrow> jsstring \<Rightarrow> jsstring \<Rightarrow> jsobj" where
  "obj_assign obj k v = (if k = js ''__proto__'' then obj else AList.update k (Str v) obj)"

text \<open>
  A \<^verbatim>\<open>Map\<close>, as the list of its entries in insertion order; \<^verbatim>\<open>set\<close> on a key that is
  there keeps its place.
\<close>

definition new_Map :: "(jsstring \<times> jsval) list \<Rightarrow> (jsstring \<times> jsval) list" where
  "new_Map entries = foldl (\<lambda>m kv. AList.update (fst kv) (snd kv) m) [] entries"

section \<open>The inline code\<close>

record CQCode =
  type :: jsval
  data :: "(jsstring \<times> jsval) list"

text \<open>The constructor; \<open>None\<close> is a call without \<^verbatim>\<open>data\<close>.\<close>

definition new_CQCode :: "jsval \<Rightarrow> jsobj option \<Rightarrow> CQCode" where
  "new_CQCode t d =
     \<lparr>type = t, data = (case d of Some obj \<Rightarrow> new_Map (object_entries obj) | None \<Rightarrow> [])\<rparr>"

definition cq_get :: "CQCode \<Rightarrow> jsstring \<Rightarrow> jsval" where
  "cq_get c key = (case map_of (data c) key of Some v \<Rightarrow> v | None \<Rightarrow> Undefined)"

definition cq_set :: "CQCode \<Rightarrow> jsstring \<Rightarrow> jsval \<Rightarrow> CQCode" where
  "cq_set c key v = c\<lparr>data := AList.update key v (data c)\<rparr>"

definition cq_del :: "CQCode \<Rightarrow> jsstring \<Rightarrow> CQCode" where
  "cq_del c key = c\<lparr>data := AList.delete key (data c)\<rparr>"

definition toString :: "CQCode \<Rightarrow> jsstring" where
  "toString c =
     (let list = map (\<lambda>kv. Str (join [EQUALS] (map escapeInsideCQ [Str (fst kv), snd kv])))
                   (filter (\<lambda>kv. \<not> isNil (snd kv)) (data c));
          list = Str (js ''CQ:'' @ to_string (type c)) # list
      in js ''['' @ join [COMMA] list @ js '']'')"

section \<open>Parsing\<close>

text \<open>\<^verbatim>\<open>/\[CQ:([^,[\]]+)((?:,[^,=[\]]+=[^,[\]]*)*)\]/g\<close>\<close>

definition reg :: regex where
  "reg =
     Seq (lit (js ''[CQ:''))
    (Seq (Group 1 (Plus (Class True [one COMMA, one LBRACKET, one RBRACKET])))
    (Seq (Group 2 (Star
            (Seq (Chr COMMA)
            (Seq (Plus (Class True [one COMMA, one EQUALS, one LBRACKET, one RBRACKET]))
            (Seq (Chr EQUALS)
                 (Star (Class True [one COMMA, one LBRACKET, one RBRACKET])))))))
         (Chr RBRACKET)))"

text \<open>What can be thrown: a \<^verbatim>\<open>TypeError\<close> of the language, or whatever a collaborator throws.\<close>

datatype error = TypeError | Thrown jsstring

text \<open>
  The body of the \<^verbatim>\<open>_.transform\<close> callback: \<^verbatim>\<open>const [key, ...value] = kv.split('=')\<close>,
  then the key and the re-joined value, both unescaped. (An empty array would
  leave \<^verbatim>\<open>key\<close> undefined, which as a property key reads \<^verbatim>\<open>undefined\<close>.)
\<close>

definition kv_entry :: "jsstring \<Rightarrow> jsstring \<times> jsstring" where
  "kv_entry kv =
     (case split EQUALS kv of
        key # val \<Rightarrow> (unescape_str key, unescape_str (join [EQUALS] (map Str val)))
      | [] \<Rightarrow> (js ''undefined'', unescape_str []))"

text \<open>
  \<^verbatim>\<open>_.transform(_.filter(dataStr.split(',')), ..., {})\<close>: the pieces that are not
  empty, each assigned into the object in turn.
\<close>

definition parse_data :: "jsstring \<Rightarrow> jsobj" where
  "parse_data dataStr =
     foldl (\<lambda>obj kv. obj_assign obj (fst (kv_entry kv)) (snd (kv_entry kv))) []
           (filter (\<lambda>kv. kv \<noteq> []) (split COMMA dataStr))"

text \<open>
  The loop of \<^verbatim>\<open>CQCode.from\<close>. Each round calls \<^verbatim>\<open>reg.exec\<close> from where the last
  match ended; \<^verbatim>\<open>match[1]\<close> is the type and \<^verbatim>\<open>match[2]\<close> the field text. A group
  that took no part in the match is \<^verbatim>\<open>undefined\<close>, and \<^verbatim>\<open>undefined.split\<close> throws.
  The loop has no bound of its own: the result is \<open>None\<close> if it never ends.
\<close>

partial_function (option)
  from_loop :: "jsstring \<Rightarrow> CQCode list \<Rightarrow> (error + CQCode list) option" where
  "from_loop str result =
     (case exec reg str of
        None \<Rightarrow> Some (Inr result)
      | Some m \<Rightarrow>
          (case snd m 2 of
             None \<Rightarrow> Some (Inl TypeError)
           | Some dataStr \<Rightarrow>
               from_loop (fst m)
                 (result @ [new_CQCode (case snd m 1 of Some t \<Rightarrow> Str t | None \<Rightarrow> Undefined)
                                       (Some (parse_data dataStr))])))"

declare from_loop.simps [code]

definition cq_from :: "jsstring \<Rightarrow> (error + CQCode list) option" where
  "cq_from str = from_loop str []"

section \<open>Builders\<close>

definition img :: "jsval \<Rightarrow> jsval \<Rightarrow> jsstring" where
  "img file t = toString (new_CQCode (Str (js ''image'')) (Some [(js ''file'', file), (js ''type'', t)]))"

definition at :: "jsval \<Rightarrow> jsstring" where
  "at qq = toString (new_CQCode (Str (js ''at'')) (Some [(js ''qq'', qq)]))"

definition atAll :: jsstring where
  "atAll = js ''[CQ:at,qq=all]''"

definition reply :: "jsval \<Rightarrow> jsstring" where
  "reply mid = toString (new_CQCode (Str (js ''reply'')) (Some [(js ''id'', mid)]))"

section \<open>Pre-downloading an image\<close>

text \<open>
  \<^verbatim>\<open>CQCode.imgPreDl\<close> calls into the cache (\<^verbatim>\<open>getCache\<close>, \<^verbatim>\<open>createCache\<close>), the
  transport (\<^verbatim>\<open>retryGet\<close>), the logger (\<^verbatim>\<open>logError\<close>) and Node's \<^verbatim>\<open>pathToFileURL\<close>.
  None of them is part of the module: each is a parameter here. A call into the
  cache or the transport returns or throws; \<^verbatim>\<open>pathToFileURL\<close> on a path string
  returns a \<^verbatim>\<open>URL\<close>, given as its \<^verbatim>\<open>href\<close>; \<^verbatim>\<open>logError\<close> returns nothing. What the
  function does to the outside is kept as the list of its effects, in order.
\<close>

type_synonym bytes = "8 word list"

record collaborators =
  getCache :: "jsstring \<Rightarrow> error + jsstring option"
  retryGet :: "jsstring \<Rightarrow> jsobj \<Rightarrow> error + bytes"
  createCache :: "jsstring \<Rightarrow> bytes \<Rightarrow> error + jsstring"
  pathToFileURL :: "jsstring \<Rightarrow> jsstring"

datatype logged = Text jsstring | Detail error

datatype effect =
    Lookup jsstring
  | Acquire
  | Get jsstring jsobj
  | Release
  | Store jsstring bytes
  | Logged logged

text \<open>\<^verbatim>\<open>{ responseType: 'arraybuffer', ...config }\<close>\<close>

definition request_config :: "jsobj \<Rightarrow> jsobj" where
  "request_config config =
     foldl (\<lambda>m kv. AList.update (fst kv) (snd kv) m)
       [(js ''responseType'', Str (js ''arraybuffer''))] (object_entries config)"

text \<open>The \<^verbatim>\<open>catch\<close> block, and the \<^verbatim>\<open>return\<close> behind it.\<close>

definition on_error :: "jsstring \<Rightarrow> jsval \<Rightarrow> error \<Rightarrow> jsstring \<times> effect list" where
  "on_error url t e =
     (img (Str url) t, [Logged (Text (js ''[error] cq img pre-download'')), Logged (Detail e)])"

text \<open>The \<^verbatim>\<open>return\<close> inside \<^verbatim>\<open>try\<close>.\<close>

definition on_path :: "(jsstring \<Rightarrow> jsstring) \<Rightarrow> jsval \<Rightarrow> jsstring \<Rightarrow> jsstring" where
  "on_path toURL t path = img (Url (toURL path)) t"

text \<open>
  The function up to its \<^verbatim>\<open>await\<close>, given what \<^verbatim>\<open>getCache\<close> answered: \<open>Some\<close>
  when it returns without a download, \<open>None\<close> when it goes on to one. \<^verbatim>\<open>!path\<close>
  holds of \<^verbatim>\<open>undefined\<close> and of the empty string.
\<close>

definition before_await ::
  "(jsstring \<Rightarrow> jsstring) \<Rightarrow> jsstring \<Rightarrow> jsval \<Rightarrow> error + jsstring option \<Rightarrow>
   (jsstring \<times> effect list) option" where
  "before_await toURL url t looked =
     (case looked of
        Inl e \<Rightarrow> Some (on_error url t e)
      | Inr None \<Rightarrow> None
      | Inr (Some path) \<Rightarrow> if path = [] then None else Some (on_path toURL t path, []))"

text \<open>
  The function from its \<^verbatim>\<open>await\<close> on, given how the download settled and what
  \<^verbatim>\<open>createCache\<close> answers.
\<close>

definition after_await ::
  "(jsstring \<Rightarrow> jsstring) \<Rightarrow> jsstring \<Rightarrow> jsval \<Rightarrow> error + bytes \<Rightarrow>
   (bytes \<Rightarrow> error + jsstring) \<Rightarrow> jsstring \<times> effect list" where
  "after_await toURL url t settled store =
     (case settled of
        Inl e \<Rightarrow> on_error url t e
      | Inr d \<Rightarrow>
          (case store d of
             Inl e \<Rightarrow> (fst (on_error url t e), Store url d # snd (on_error url t e))
           | Inr path \<Rightarrow> (on_path toURL t path, [Store url d])))"

text \<open>
  One call on its own: the limiter has a free slot, so the download starts at
  once, and the slot is free again when it settles.
\<close>

definition imgPreDl ::
  "collaborators \<Rightarrow> jsstring \<Rightarrow> jsval \<Rightarrow> jsobj \<Rightarrow> jsstring \<times> effect list" where
  "imgPreDl env url t config =
     (case before_await (pathToFileURL env) url t (getCache env url) of
        Some r \<Rightarrow> (fst r, Lookup url # snd r)
      | None \<Rightarrow>
          let r = after_await (pathToFileURL env) url t
                    (retryGet env url (request_config config)) (createCache env url)
          in (fst r, [Lookup url, Acquire, Get url (request_config config), Release] @ snd r))"

section \<open>Concurrent calls\<close>

text \<open>
  \<^verbatim>\<open>const dlImgLimit = promiseLimit(4)\<close>: one limiter for the whole process, of
  capacity four. Every download of \<^verbatim>\<open>imgPreDl\<close> is handed to it.
\<close>

definition dlImgLimit :: nat where
  "dlImgLimit = 4"

text \<open>
  A call of \<^verbatim>\<open>imgPreDl\<close> is suspended at its \<^verbatim>\<open>await\<close> until the limiter starts its
  download, then has its download in flight, and returns when that settles. The
  process is its calls, and the limiter's count of running jobs and its queue
  (of indices into the calls).
\<close>

datatype pc = Suspended | InFlight | Returned jsstring

record prefetch =
  p_url :: jsstring
  p_type :: jsval
  p_config :: jsobj
  p_pc :: pc

record process =
  calls :: "prefetch list"
  outstanding :: nat
  jobs :: "nat list"

text \<open>The limiter starts the job of call \<open>i\<close>: its transport request goes out.\<close>

definition launch :: "nat \<Rightarrow> prefetch list \<Rightarrow> prefetch list" where
  "launch i cs = (if i < length cs then cs[i := (cs ! i)\<lparr>p_pc := InFlight\<rparr>] else cs)"

text \<open>
  Modelled from the spec: what the limiter does with a job handed to it. The
  limiter is the package \<^verbatim>\<open>promise-limit\<close>, whose code is not part of the source.
  By the specification it is a gate of fixed capacity: the job starts at once
  while fewer jobs than the capacity run, and waits in a queue otherwise.
\<close>

definition limiter_submit :: "nat \<Rightarrow> process \<Rightarrow> process" where
  "limiter_submit i s =
     (if outstanding s < dlImgLimit
      then s\<lparr>calls := launch i (calls s), outstanding := outstanding s + 1\<rparr>
      else s\<lparr>jobs := jobs s @ [i]\<rparr>)"

text \<open>
  Modelled from the spec: what the limiter does when a job settles (the same
  package, absent from the source). The slot is released, and if a job waits
  it is taken from the head of the queue and started.
\<close>

definition limiter_release :: "process \<Rightarrow> process" where
  "limiter_release s =
     (let s' = s\<lparr>outstanding := outstanding s - 1\<rparr>
      in case jobs s' of
           [] \<Rightarrow> s'
         | j # q \<Rightarrow>
             if outstanding s' < dlImgLimit
             then s'\<lparr>calls := launch j (calls s'), outstanding := outstanding s' + 1, jobs := q\<rparr>
             else s')"

text \<open>
  The process moves when \<^verbatim>\<open>imgPreDl\<close> is called (the event says what \<^verbatim>\<open>getCache\<close>
  answers) and when the download of a call settles (the event says how, and what
  \<^verbatim>\<open>createCache\<close> answers). Between two events nothing else runs: the calls share
  one thread and give way only at their \<^verbatim>\<open>await\<close>.
\<close>

datatype event =
    Call jsstring jsval jsobj "error + jsstring option"
  | Settle nat "error + bytes" "error + jsstring"

fun step :: "(jsstring \<Rightarrow> jsstring) \<Rightarrow> process \<Rightarrow> event \<Rightarrow> process" where
  "step toURL s (Call url t config looked) =
     (case before_await toURL url t looked of
        Some r \<Rightarrow>
          s\<lparr>calls := calls s @ [\<lparr>p_url = url, p_type = t, p_config = config, p_pc = Returned (fst r)\<rparr>]\<rparr>
      | None \<Rightarrow>
          limiter_submit (length (calls s))
            (s\<lparr>calls := calls s @ [\<lparr>p_url = url, p_type = t, p_config = config, p_pc = Suspended\<rparr>]\<rparr>))"
| "step toURL s (Settle i settled stored) =
     (if i < length (calls s) \<and> p_pc (calls s ! i) = InFlight
      then let c = calls s ! i;
               r = after_await toURL (p_url c) (p_type c) settled (\<lambda>d. stored)
           in limiter_release (s\<lparr>calls := (calls s)[i := c\<lparr>p_pc := Returned (fst r)\<rparr>]\<rparr>)
      else s)"

definition idle :: process where
  "idle = \<lparr>calls = [], outstanding = 0, jobs = []\<rparr>"

definition run :: "(jsstring \<Rightarrow> jsstring) \<Rightarrow> event list \<Rightarrow> process" where
  "run toURL evs = foldl (step toURL) idle evs"

text \<open>The downloads in flight: the calls whose transport request has not settled.\<close>

definition in_flight :: "process \<Rightarrow> nat" where
  "in_flight s = length (filter (\<lambda>c. p_pc c = InFlight) (calls s))"

section \<open>The escaper as the specification words it\<close>

text \<open>Every occurrence of one code unit replaced by a string.\<close>

definition subst_char :: "jschar \<Rightarrow> jsstring \<Rightarrow> jsstring \<Rightarrow> jsstring" where
  "subst_char c rep s = concat (map (\<lambda>x. if x = c then rep else [x]) s)"

text \<open>
  Every pictographic symbol replaced by one space, scanning from the left: a
  symbol is a surrogate pair \<open>D83C\<close> + \<open>DF00..DFFF\<close>, a pair \<open>D83D\<close> +
  \<open>DC00..DE4F\<close> or \<open>DE80..DEFF\<close>, or one code unit in \<open>2600..2B55\<close>.
\<close>

fun pictographs_to_space :: "jsstring \<Rightarrow> jsstring" where
  "pictographs_to_space (a # b # s) =
     (if a = 0xD83C \<and> 0xDF00 \<le> b \<and> b \<le> 0xDFFF then SPACE # pictographs_to_space s
      else if a = 0xD83D \<and> (0xDC00 \<le> b \<and> b \<le> 0xDE4F \<or> 0xDE80 \<le> b \<and> b \<le> 0xDEFF)
        then SPACE # pictographs_to_space s
      else if 0x2600 \<le> a \<and> a \<le> 0x2B55 then SPACE # pictographs_to_space (b # s)
      else a # pictographs_to_space (b # s))"
| "pictographs_to_space [a] = (if 0x2600 \<le> a \<and> a \<le> 0x2B55 then [SPACE] else [a])"
| "pictographs_to_space [] = []"

definition spec_escape_plain :: "jsstring \<Rightarrow> jsstring" where
  "spec_escape_plain s =
     subst_char RBRACKET (js ''&#93;'')
       (subst_char LBRACKET (js ''&#91;'') (subst_char AMP (js ''&amp;'') s))"

definition spec_escape_inside :: "jsstring \<Rightarrow> jsstring" where
  "spec_escape_inside s =
     pictographs_to_space (subst_char COMMA (js ''&#44;'') (spec_escape_plain s))"

section \<open>Strings that escaping leaves recoverable\<close>

text \<open>\<open>starts_with w s\<close>: \<open>s\<close> begins with \<open>w\<close>; \<open>contains w s\<close>: \<open>w\<close> occurs in \<open>s\<close>.\<close>


fun starts_with :: "jsstring \<Rightarrow> jsstring \<Rightarrow> bool" where
  "starts_with [] s = True"
| "starts_with (c # w) [] = False"
| "starts_with (c # w) (x # s) = (c = x \<and> starts_with w s)"

fun contains :: "jsstring \<Rightarrow> jsstring \<Rightarrow> bool" where
  "contains w [] = starts_with w []"
| "contains w (x # s) = (starts_with w (x # s) \<or> contains w s)"

definition has_entity :: "jsstring \<Rightarrow> bool" where
  "has_entity s \<longleftrightarrow>
     contains (js ''&amp;'') s \<or> contains (js ''&#44;'') s \<or>
     contains (js ''&#91;'') s \<or> contains (js ''&#93;'') s"

definition pictograph1 :: "jschar \<Rightarrow> bool" where
  "pictograph1 a \<longleftrightarrow> 0x2600 \<le> a \<and> a \<le> 0x2B55"

definition pictograph2 :: "jschar \<Rightarrow> jschar \<Rightarrow> bool" where
  "pictograph2 a b \<longleftrightarrow>
     a = 0xD83C \<and> 0xDF00 \<le> b \<and> b \<le> 0xDFFF \<or>
     a = 0xD83D \<and> (0xDC00 \<le> b \<and> b \<le> 0xDE4F \<or> 0xDE80 \<le> b \<and> b \<le> 0xDEFF)"

fun has_pictograph :: "jsstring \<Rightarrow> bool" where
  "has_pictograph (a # b # s) = (pictograph2 a b \<or> pictograph1 a \<or> has_pictograph (b # s))"
| "has_pictograph [a] = pictograph1 a"
| "has_pictograph [] = False"

definition enc_plain :: "jschar \<Rightarrow> jsstring" where
  "enc_plain c = (if c = AMP then js ''&amp;'' else if c = LBRACKET then js ''&#91;''
                  else if c = RBRACKET then js ''&#93;'' else [c])"

definition enc_inside :: "jschar \<Rightarrow> jsstring" where
  "enc_inside c = (if c = COMMA then js ''&#44;'' else enc_plain c)"

definition tok_ok :: "nat \<Rightarrow> jsstring \<Rightarrow> bool" where
  "tok_ok n t \<longleftrightarrow> (case t of [] \<Rightarrow> False
      | x # t' \<Rightarrow> if x = AMP then length t' = n \<and> AMP \<notin> set t' else t' = [])"

definition enc_rb :: "jschar \<Rightarrow> jsstring" where
  "enc_rb c = (if c = AMP then js ''&amp;'' else if c = RBRACKET then js ''&#93;'' else [c])"

definition enc_amp :: "jschar \<Rightarrow> jsstring" where
  "enc_amp c = (if c = AMP then js ''&amp;'' else [c])"

section \<open>Serialization as the specification words it\<close>

text \<open>
  One field: a comma, the key escaped for a field, an equals sign, the value
  escaped for a field. Escaping passes a value that is not a string through, and
  the text then takes its string form.
\<close>

definition spec_field :: "jsstring \<times> jsval \<Rightarrow> jsstring" where
  "spec_field kv =
     [COMMA] @ to_string (escape (Str (fst kv)) True) @ [EQUALS] @ to_string (escape (snd kv) True)"

definition spec_serialize :: "CQCode \<Rightarrow> jsstring" where
  "spec_serialize c =
     js ''[CQ:'' @ to_string (type c) @
     concat (map spec_field (filter (\<lambda>kv. \<not> isNil (snd kv)) (data c))) @ js '']''"

section \<open>The parser as the specification words it\<close>

text \<open>
  The grammar of one inline code: \<open>[CQ:\<close>, a type of one or more characters
  other than \<open>,\<close> \<open>[\<close> \<open>]\<close>, any number of pairs \<open>,key=value\<close> (a key of one or
  more characters other than \<open>,\<close> \<open>=\<close> \<open>[\<close> \<open>]\<close>, a value of any number of
  characters other than \<open>,\<close> \<open>[\<close> \<open>]\<close>), and \<open>]\<close>. The scanner below reads it
  from left to right, each part as far as it goes: \<open>scan_pair\<close> one pair,
  \<open>scan_pairs\<close> as many as follow, \<open>scan_code\<close> one code, and \<open>scan_all\<close> the
  codes of a text, resuming behind each code it found and one character on
  where none starts.
\<close>

definition type_char :: "jschar \<Rightarrow> bool" where
  "type_char c \<longleftrightarrow> c \<noteq> COMMA \<and> c \<noteq> LBRACKET \<and> c \<noteq> RBRACKET"

definition key_char :: "jschar \<Rightarrow> bool" where
  "key_char c \<longleftrightarrow> c \<noteq> COMMA \<and> c \<noteq> EQUALS \<and> c \<noteq> LBRACKET \<and> c \<noteq> RBRACKET"

definition value_char :: "jschar \<Rightarrow> bool" where
  "value_char c \<longleftrightarrow> c \<noteq> COMMA \<and> c \<noteq> LBRACKET \<and> c \<noteq> RBRACKET"

definition scan_pair :: "jsstring \<Rightarrow> ((jsstring \<times> jsstring) \<times> jsstring) option" where
  "scan_pair s =
     (case s of
        [] \<Rightarrow> None
      | c # t \<Rightarrow>
          (case dropWhile key_char t of
             [] \<Rightarrow> None
           | e # v \<Rightarrow>
               if c = COMMA \<and> takeWhile key_char t \<noteq> [] \<and> e = EQUALS
               then Some ((takeWhile key_char t, takeWhile value_char v), dropWhile value_char v)
               else None))"

lemma scan_pair_shorter:
  assumes "scan_pair s = Some (kv, r)"
  shows "length r < length s"
proof -
  from assms obtain c t e v where s: "s = c # t" and d: "dropWhile key_char t = e # v"
    and r: "r = dropWhile value_char v"
    by (auto simp: scan_pair_def split: list.splits if_splits)
  have "length r \<le> length v" using r by (simp add: length_dropWhile_le)
  moreover have "length (e # v) \<le> length t"
    using length_dropWhile_le [of key_char t] d by simp
  ultimately show ?thesis using s by simp
qed

function scan_pairs :: "jsstring \<Rightarrow> (jsstring \<times> jsstring) list \<times> jsstring" where
  "scan_pairs s =
     (case scan_pair s of
        None \<Rightarrow> ([], s)
      | Some (kv, r) \<Rightarrow> (kv # fst (scan_pairs r), snd (scan_pairs r)))"
  by pat_completeness auto
termination
  by (relation "measure length") (auto simp: scan_pair_shorter)

declare scan_pairs.simps [simp del]

definition scan_raw :: "jsstring \<Rightarrow> (jsstring \<times> jsstring \<times> jsstring) option" where
  "scan_raw s =
     (if starts_with (js ''[CQ:'') s then
        let t = drop 4 s; u = dropWhile type_char t; r = snd (scan_pairs u)
        in if takeWhile type_char t \<noteq> [] \<and> starts_with [RBRACKET] r
           then Some (takeWhile type_char t, take (length u - length r) u, tl r)
           else None
      else None)"

definition scan_code ::
  "jsstring \<Rightarrow> ((jsstring \<times> (jsstring \<times> jsstring) list) \<times> jsstring) option" where
  "scan_code s =
     (if starts_with (js ''[CQ:'') s then
        let t = drop 4 s; u = dropWhile type_char t; r = snd (scan_pairs u)
        in if takeWhile type_char t \<noteq> [] \<and> starts_with [RBRACKET] r
           then Some ((takeWhile type_char t, fst (scan_pairs u)), tl r)
           else None
      else None)"

lemma length_scan_pairs: "length (snd (scan_pairs u)) \<le> length u"
proof (induction u rule: scan_pairs.induct)
  case (1 s)
  show ?case
  proof (cases "scan_pair s")
    case None
    then show ?thesis by (simp add: scan_pairs.simps [of s])
  next
    case (Some p)
    obtain kv r where p: "p = (kv, r)" by (cases p)
    from "1.IH" [OF Some p [symmetric]] scan_pair_shorter [of s kv r] Some p
    show ?thesis by (simp add: scan_pairs.simps [of s])
  qed
qed

lemma scan_code_shorter:
  assumes "scan_code s = Some (c, r)"
  shows "length r < length s"
proof -
  let ?u = "dropWhile type_char (drop 4 s)"
  from assms have r: "r = tl (snd (scan_pairs ?u))" and ne: "snd (scan_pairs ?u) \<noteq> []"
    and sw: "starts_with (js ''[CQ:'') s"
    by (auto simp: scan_code_def Let_def split: if_splits)
  have "length (snd (scan_pairs ?u)) \<le> length ?u" by (rule length_scan_pairs)
  also have "\<dots> \<le> length (drop 4 s)" by (rule length_dropWhile_le)
  also have "\<dots> \<le> length s" by simp
  finally show ?thesis using r ne by (cases "snd (scan_pairs ?u)") simp_all
qed

function scan_all :: "jsstring \<Rightarrow> (jsstring \<times> (jsstring \<times> jsstring) list) list" where
  "scan_all s =
     (case scan_code s of
        Some (c, r) \<Rightarrow> c # scan_all r
      | None \<Rightarrow> (case s of [] \<Rightarrow> [] | x # t \<Rightarrow> scan_all t))"
  by pat_completeness auto
termination
  by (relation "measure length") (auto simp: scan_code_shorter)

declare scan_all.simps [simp del]

text \<open>
  Unescaping: the four entities back to their characters, one substitution
  after the other, \<^verbatim>\<open>&#44;\<close> first, then \<^verbatim>\<open>&#91;\<close>, then \<^verbatim>\<open>&#93;\<close>, and \<^verbatim>\<open>&amp;\<close> last.
  \<open>subst_str w rep s\<close> replaces every occurrence of the string \<open>w\<close> in \<open>s\<close>,
  from the left, the next occurrence sought behind the one just replaced.
\<close>

function subst_str :: "jsstring \<Rightarrow> jsstring \<Rightarrow> jsstring \<Rightarrow> jsstring" where
  "subst_str w rep s =
     (case s of
        [] \<Rightarrow> []
      | x # t \<Rightarrow>
          if w \<noteq> [] \<and> starts_with w s then rep @ subst_str w rep (drop (length w) s)
          else x # subst_str w rep t)"
  by pat_completeness auto
termination
  by (relation "measure (\<lambda>(w, rep, s). length s)") auto

declare subst_str.simps [simp del]

definition spec_unescape :: "jsstring \<Rightarrow> jsstring" where
  "spec_unescape s =
     subst_str (js ''&amp;'') [AMP]
       (subst_str (js ''&#93;'') [RBRACKET]
          (subst_str (js ''&#91;'') [LBRACKET]
             (subst_str (js ''&#44;'') [COMMA] s)))"

text \<open>
  The entities of a text: one for each code the scanner finds, in that order.
  The type is the type as it stands in the text. The fields are populated from
  the pairs, one after the other: a pair sets the field that its unescaped key
  names to its unescaped value. Keys are unique within an entity, and the last
  write wins. No key is set apart: every pair of the text is a field of the
  entity, unless a later pair of the same key overwrites it.
\<close>

definition spec_fields :: "(jsstring \<times> jsstring) list \<Rightarrow> (jsstring \<times> jsval) list" where
  "spec_fields pairs =
     foldl (\<lambda>fs kv. AList.update (spec_unescape (fst kv)) (Str (spec_unescape (snd kv))) fs)
           [] pairs"

definition spec_parseAll :: "jsstring \<Rightarrow> CQCode list" where
  "spec_parseAll s =
     map (\<lambda>c. \<lparr>type = Str (fst c), data = spec_fields (snd c)\<rparr>) (scan_all s)"

section \<open>One round of the parsing loop, on a scanned code\<close>

text \<open>
  What \<^verbatim>\<open>CQCode.from\<close> does with one match, restated on the pairs the scanner
  found in place of the captured field text. \<open>assign_all\<close> is the \<^verbatim>\<open>_.transform\<close>
  call: \<^verbatim>\<open>obj[key] = value\<close> for each pair in turn, from the empty object.
  \<open>code_of_match\<close> is \<^verbatim>\<open>new CQCode(type, obj)\<close> on the pairs unescaped as the
  callback unescapes them. Both are steps of the code, with what the code does
  to a key \<^verbatim>\<open>__proto__\<close> and to the order of the entries; they give the loop a
  closed form and say nothing of what the parser ought to return.
\<close>

definition assign_all :: "(jsstring \<times> jsstring) list \<Rightarrow> jsobj" where
  "assign_all kvs = foldl (\<lambda>obj kv. obj_assign obj (fst kv) (snd kv)) [] kvs"

definition code_of_match :: "jsstring \<times> (jsstring \<times> jsstring) list \<Rightarrow> CQCode" where
  "code_of_match c =
     new_CQCode (Str (fst c))
       (Some (assign_all (map (\<lambda>kv. (unescape_str (fst kv), unescape_str (snd kv))) (snd c))))"

text \<open>
  \<open>pair_text\<close> is a pair as it stands in the text, \<open>pair_body\<close> the same without
  its comma; \<open>pair_re\<close> is the part of the pattern that matches one pair, and
  \<open>wf_pair\<close> says that a key and a value are made of the characters the
  grammar allows them.
\<close>

definition pair_text :: "jsstring \<times> jsstring \<Rightarrow> jsstring" where
  "pair_text kv = COMMA # fst kv @ EQUALS # snd kv"

definition pair_re :: regex where
  "pair_re =
     Seq (Chr COMMA)
    (Seq (Plus (Class True [one COMMA, one EQUALS, one LBRACKET, one RBRACKET]))
    (Seq (Chr EQUALS)
         (Star (Class True [one COMMA, one LBRACKET, one RBRACKET]))))"

definition wf_pair :: "jsstring \<times> jsstring \<Rightarrow> bool" where
  "wf_pair kv \<longleftrightarrow> fst kv \<noteq> [] \<and> list_all key_char (fst kv) \<and> list_all value_char (snd kv)"

definition pair_body :: "jsstring \<times> jsstring \<Rightarrow> jsstring" where
  "pair_body kv = fst kv @ EQUALS # snd kv"

section \<open>Fields that survive serializing and parsing\<close>

text \<open>
  \<open>reserved_free\<close>: none of the reserved characters \<open>,\<close> \<open>=\<close> \<open>[\<close> \<open>]\<close> \<open>&\<close>.
  \<open>plain_text\<close>: reserved-free and without a pictographic symbol. A
  \<open>plain_field\<close> has a key that is not empty and not \<open>__proto__\<close>, and a string
  value, both plain; \<open>serial_ok\<close> allows a number for the value as well.
  \<open>string_valued\<close>: every value is a string.
\<close>

definition reserved_free :: "jsstring \<Rightarrow> bool" where
  "reserved_free s \<longleftrightarrow>
     list_all (\<lambda>c. c \<noteq> COMMA \<and> c \<noteq> EQUALS \<and> c \<noteq> LBRACKET \<and> c \<noteq> RBRACKET \<and> c \<noteq> AMP) s"

definition plain_text :: "jsstring \<Rightarrow> bool" where
  "plain_text s \<longleftrightarrow> reserved_free s \<and> \<not> has_pictograph s"

definition field_text :: "jsstring \<times> jsval \<Rightarrow> jsstring \<times> jsstring" where
  "field_text kv = (fst kv, to_string (snd kv))"

definition serial_ok :: "jsstring \<times> jsval \<Rightarrow> bool" where
  "serial_ok kv \<longleftrightarrow>
     fst kv \<noteq> [] \<and> fst kv \<noteq> js ''__proto__'' \<and> plain_text (fst kv) \<and>
     (case snd kv of Str w \<Rightarrow> plain_text w | Num n \<Rightarrow> True | _ \<Rightarrow> False)"

definition plain_field :: "jsstring \<times> jsval \<Rightarrow> bool" where
  "plain_field kv \<longleftrightarrow>
     fst kv \<noteq> [] \<and> fst kv \<noteq> js ''__proto__'' \<and> plain_text (fst kv) \<and>
     (case snd kv of Str w \<Rightarrow> plain_text w | _ \<Rightarrow> False)"

definition string_valued :: "(jsstring \<times> jsval) list \<Rightarrow> bool" where
  "string_valued m \<longleftrightarrow> list_all (\<lambda>kv. case snd kv of Str w \<Rightarrow> True | _ \<Rightarrow> False) m"

definition is_Str :: "jsval \<Rightarrow> bool" where
  "is_Str v = (case v of Str w \<Rightarrow> True | _ \<Rightarrow> False)"

section \<open>What a pre-download does to the outside\<close>

text \<open>
  \<open>failing\<close>: a stage of the call fails: the cache lookup throws, or it misses
  and the download fails, or the download succeeds and the cache write throws.
  \<open>log_count\<close> counts the calls of \<^verbatim>\<open>logError\<close> among the effects;
  \<open>uses_network\<close> holds when a limiter slot was taken or the transport was
  called. \<open>no_network\<close> is an empty cache with a transport that always fails,
  \<open>cached_env\<close> a cache that has every image.
\<close>

definition failing :: "collaborators \<Rightarrow> jsstring \<Rightarrow> jsobj \<Rightarrow> bool" where
  "failing env url config =
     (case getCache env url of
        Inl e \<Rightarrow> True
      | Inr cached \<Rightarrow>
          (cached = None \<or> cached = Some []) \<and>
          (case retryGet env url (request_config config) of
             Inl e \<Rightarrow> True
           | Inr d \<Rightarrow> (case createCache env url d of Inl e \<Rightarrow> True | Inr path \<Rightarrow> False)))"

definition log_count :: "effect list \<Rightarrow> nat" where
  "log_count effs = length (filter (\<lambda>x. case x of Logged l \<Rightarrow> True | _ \<Rightarrow> False) effs)"

definition uses_network :: "effect list \<Rightarrow> bool" where
  "uses_network effs =
     list_ex (\<lambda>x. case x of Get u c \<Rightarrow> True | Acquire \<Rightarrow> True | _ \<Rightarrow> False) effs"

definition no_network :: collaborators where
  "no_network =
     \<lparr>getCache = (\<lambda>url. Inr None),
      retryGet = (\<lambda>url config. Inl (Thrown (js ''ECONNREFUSED''))),
      createCache = (\<lambda>url d. Inr (js ''/cache/0'')),
      pathToFileURL = (\<lambda>path. js ''file://'' @ path)\<rparr>"

definition cached_env :: collaborators where
  "cached_env =
     \<lparr>getCache = (\<lambda>url. Inr (Some (js ''/cache/ab12''))),
      retryGet = (\<lambda>url config. Inl (Thrown (js ''unreachable''))),
      createCache = (\<lambda>url d. Inl (Thrown (js ''unreachable''))),
      pathToFileURL = (\<lambda>path. js ''file://'' @ path)\<rparr>"

text \<open>
  The books of the limiter are right: it counts the downloads in flight, it
  never counts more than its capacity, and its queue holds suspended calls, each
  once.
\<close>

definition limiter_ok :: "process \<Rightarrow> bool" where
  "limiter_ok s \<longleftrightarrow>
     outstanding s = in_flight s \<and> outstanding s \<le> dlImgLimit \<and> distinct (jobs s) \<and>
     list_all (\<lambda>j. j < length (calls s) \<and> p_pc (calls s ! j) = Suspended) (jobs s)"

section \<open>Replacing with the patterns of the escaper\<close>

lemma first_match_Chr:
  "first_match (Chr c) s =
     (case s of [] \<Rightarrow> None | x # xs \<Rightarrow> if x = c then Some (xs, Map.empty) else None)"
  by (simp add: first_match_def split: list.split)

lemma replace_Chr: "replace (Chr c) rep s = subst_char c rep s"
proof (induction s)
  case Nil
  show ?case by (subst replace.simps) (simp add: first_match_Chr subst_char_def)
next
  case (Cons x xs)
  show ?case
    using Cons.IH by (subst replace.simps) (simp add: first_match_Chr subst_char_def)
qed

lemma first_match_emoji_Nil: "first_match emoji [] = None"
  by (simp add: first_match_def emoji_def)

lemma first_match_emoji_single:
  "first_match emoji [a] = (if 0x2600 \<le> a \<and> a \<le> 0x2B55 then Some ([], Map.empty) else None)"
  by (simp add: first_match_def emoji_def in_ranges_def class_matches_def)

lemma fst_first_match_emoji_pair:
  "map_option fst (first_match emoji (a # b # s)) =
     (if a = 0xD83C \<and> 0xDF00 \<le> b \<and> b \<le> 0xDFFF then Some s
      else if a = 0xD83D \<and> (0xDC00 \<le> b \<and> b \<le> 0xDE4F \<or> 0xDE80 \<le> b \<and> b \<le> 0xDEFF)
        then Some s
      else if 0x2600 \<le> a \<and> a \<le> 0x2B55 then Some (b # s)
      else None)"
  by (simp add: first_match_def emoji_def in_ranges_def class_matches_def)

lemma replace_emoji_Nil: "replace emoji rep [] = []"
  by (subst replace.simps) (simp add: first_match_emoji_Nil)

lemma replace_step:
  "replace r rep s =
     (case map_option fst (first_match r s) of
        Some s' \<Rightarrow>
          if length s' < length s then rep @ replace r rep s'
          else rep @ (case s of [] \<Rightarrow> [] | c # t \<Rightarrow> c # replace r rep t)
      | None \<Rightarrow> (case s of [] \<Rightarrow> [] | c # t \<Rightarrow> c # replace r rep t))"
  by (subst replace.simps) (simp split: option.split)

lemma replace_emoji: "replace emoji [SPACE] s = pictographs_to_space s"
proof (induction s rule: pictographs_to_space.induct)
  case (1 a b s)
  then show ?case
    by (subst replace_step) (simp add: fst_first_match_emoji_pair)
next
  case (2 a)
  show ?case
    by (subst replace_step) (simp add: first_match_emoji_single replace_emoji_Nil)
next
  case 3
  show ?case by (simp add: replace_emoji_Nil)
qed

text \<open>
  C4. For every string \<open>s\<close>, \<open>escape(s, false)\<close> is \<open>s\<close> with every \<open>&\<close>
  replaced by \<open>&amp;\<close>, then every \<open>[\<close> by \<open>&#91;\<close>, then every \<open>]\<close> by
  \<open>&#93;\<close>; and \<open>escape(s, true)\<close> is that result with every \<open>,\<close> replaced by
  \<open>&#44;\<close> and then every pictographic symbol of the enumerated ranges replaced
  by one space.
\<close>

theorem escape_refines_spec:
  "escape (Str s) False = Str (spec_escape_plain s) \<and>
   escape (Str s) True = Str (spec_escape_inside s)"
  by (simp add: escape_str_def spec_escape_plain_def spec_escape_inside_def
      replace_Chr replace_emoji)

lemma subst_char_append: "subst_char c r (xs @ ys) = subst_char c r xs @ subst_char c r ys"
  by (simp add: subst_char_def)

lemma subst_char_concat_map:
  "subst_char c r (concat (map f s)) = concat (map (\<lambda>x. subst_char c r (f x)) s)"
  by (induction s) (simp_all add: subst_char_append, simp add: subst_char_def)

lemma subst_char_as_map: "subst_char c r s = concat (map (\<lambda>x. if x = c then r else [x]) s)"
  by (simp add: subst_char_def)

lemma spec_escape_plain_enc: "spec_escape_plain s = concat (map enc_plain s)"
proof -
  have "(\<lambda>x. subst_char RBRACKET (js ''&#93;'') (subst_char LBRACKET (js ''&#91;'')
            (if x = AMP then js ''&amp;'' else [x]))) = enc_plain"
    by (rule ext) (simp add: subst_char_def enc_plain_def js_def)
  then show ?thesis
    unfolding spec_escape_plain_def
    by (simp add: subst_char_as_map [of AMP] subst_char_concat_map)
qed

lemma subst_comma_enc:
  "subst_char COMMA (js ''&#44;'') (spec_escape_plain s) = concat (map enc_inside s)"
proof -
  have "(\<lambda>x. subst_char COMMA (js ''&#44;'') (enc_plain x)) = enc_inside"
    by (rule ext) (simp add: subst_char_def enc_plain_def enc_inside_def js_def)
  then show ?thesis
    by (simp add: spec_escape_plain_enc subst_char_concat_map)
qed

lemma rmatch_lit:
  "rmatch (lit w) (s, cs) = (if starts_with w s then [(drop (length w) s, cs)] else [])"
proof (induction w s arbitrary: cs rule: starts_with.induct)
  case (1 s) show ?case by simp
next
  case (2 c w) show ?case by simp
next
  case (3 c w x s) then show ?case by simp
qed

declare lit.simps [simp del]

lemma first_match_lit:
  "first_match (lit w) s = (if starts_with w s then Some (drop (length w) s, Map.empty) else None)"
  by (simp add: first_match_def rmatch_lit)

lemma replace_lit_skip:
  "c \<notin> set u \<Longrightarrow> replace (lit (c # w)) rep (u @ v) = u @ replace (lit (c # w)) rep v"
proof (induction u)
  case Nil show ?case by simp
next
  case (Cons x u)
  then have "x \<noteq> c" by auto
  then have "first_match (lit (c # w)) ((x # u) @ v) = None"
    by (simp add: first_match_lit)
  then have "replace (lit (c # w)) rep ((x # u) @ v) = x # replace (lit (c # w)) rep (u @ v)"
    by (subst replace.simps) simp
  with Cons show ?case by simp
qed

text \<open>Replacing with a literal pattern is replacing a string.\<close>

lemma replace_lit_subst: "replace (lit (c # w)) rep s = subst_str (c # w) rep s"
proof (induction s rule: length_induct)
  case (1 s)
  show ?case
  proof (cases s)
    case Nil
    then show ?thesis
      by (simp add: replace.simps [of _ _ "[]"] subst_str.simps [of _ _ "[]"] first_match_lit)
  next
    case (Cons x t)
    show ?thesis
    proof (cases "starts_with (c # w) s")
      case True
      have less: "length (drop (length (c # w)) s) < length s" using Cons by simp
      with 1 have "replace (lit (c # w)) rep (drop (length (c # w)) s) =
          subst_str (c # w) rep (drop (length (c # w)) s)" by blast
      moreover have "replace (lit (c # w)) rep s =
          rep @ replace (lit (c # w)) rep (drop (length (c # w)) s)"
        using True less by (subst replace.simps) (simp add: first_match_lit)
      moreover have "subst_str (c # w) rep s =
          rep @ subst_str (c # w) rep (drop (length (c # w)) s)"
        using True Cons by (subst subst_str.simps) simp
      ultimately show ?thesis by simp
    next
      case False
      from 1 Cons have "replace (lit (c # w)) rep t = subst_str (c # w) rep t" by simp
      moreover have "replace (lit (c # w)) rep s = x # replace (lit (c # w)) rep t"
        using False Cons by (subst replace.simps) (auto simp add: first_match_lit)
      moreover have "subst_str (c # w) rep s = x # subst_str (c # w) rep t"
        using False Cons by (subst subst_str.simps) auto
      ultimately show ?thesis by simp
    qed
  qed
qed

lemma unescape_spec: "unescape_str s = spec_unescape s"
  by (simp add: unescape_str_def spec_unescape_def js_def replace_lit_subst)

lemma starts_with_same_length:
  "length w = length t \<Longrightarrow> starts_with w (t @ v) = (w = t)"
  by (induction w t rule: starts_with.induct) auto

lemma starts_with_self: "starts_with w (w @ v)"
  by (induction w) auto

lemma replace_lit_tokens:
  assumes ok: "\<And>c. tok_ok (length w) (tok c)" and w: "AMP \<notin> set w"
  shows "replace (lit (AMP # w)) rep (concat (map tok s)) =
         concat (map (\<lambda>c. if tok c = AMP # w then rep else tok c) s)"
proof (induction s)
  case Nil
  show ?case by (subst replace.simps) (simp add: first_match_lit)
next
  case (Cons c s)
  let ?rest = "concat (map tok s)"
  from ok [of c] obtain x t' where t: "tok c = x # t'"
    and sh: "if x = AMP then length t' = length w \<and> AMP \<notin> set t' else t' = []"
    by (auto simp: tok_ok_def split: list.splits)
  show ?case
  proof (cases "x = AMP")
    case False
    with sh t have tc: "tok c = [x]" by simp
    have "replace (lit (AMP # w)) rep ([x] @ ?rest) = [x] @ replace (lit (AMP # w)) rep ?rest"
      using False by (intro replace_lit_skip) simp
    with tc False Cons.IH show ?thesis by simp
  next
    case True
    with sh have len: "length t' = length w" and na: "AMP \<notin> set t'" by simp_all
    show ?thesis
    proof (cases "tok c = AMP # w")
      case same: True
      have "first_match (lit (AMP # w)) ((AMP # w) @ ?rest) = Some (?rest, Map.empty)"
        by (simp only: first_match_lit starts_with_self) simp
      then have "replace (lit (AMP # w)) rep ((AMP # w) @ ?rest) =
                 rep @ replace (lit (AMP # w)) rep ?rest"
        by (subst replace.simps) simp
      with same Cons.IH show ?thesis by simp
    next
      case diff: False
      with t True have "w \<noteq> t'" by auto
      then have "first_match (lit (AMP # w)) (AMP # t' @ ?rest) = None"
        using len starts_with_same_length [of "AMP # w" "AMP # t'" ?rest]
        by (simp add: first_match_lit del: starts_with.simps)
      then have "replace (lit (AMP # w)) rep (AMP # t' @ ?rest) =
                 AMP # replace (lit (AMP # w)) rep (t' @ ?rest)"
        by (subst replace.simps) simp
      also have "\<dots> = AMP # t' @ replace (lit (AMP # w)) rep ?rest"
        using na by (simp add: replace_lit_skip)
      finally show ?thesis using diff t True Cons.IH by simp
    qed
  qed
qed


lemmas enc_defs = enc_inside_def enc_plain_def enc_rb_def enc_amp_def js_def

lemma pass_comma_inside:
  "replace (lit (js ''&#44;'')) [COMMA] (concat (map enc_inside s)) = concat (map enc_plain s)"
proof -
  have "(\<lambda>c. if enc_inside c = AMP # js ''#44;'' then [COMMA] else enc_inside c) = enc_plain"
    by (rule ext) (simp add: enc_defs)
  moreover have "tok_ok (length (js ''#44;'')) (enc_inside c)" for c
    by (simp add: tok_ok_def enc_defs)
  ultimately show ?thesis
    using replace_lit_tokens [of "js ''#44;''" enc_inside "[COMMA]" s] by (simp add: js_def)
qed

lemma pass_comma_plain:
  "replace (lit (js ''&#44;'')) [COMMA] (concat (map enc_plain s)) = concat (map enc_plain s)"
proof -
  have "(\<lambda>c. if enc_plain c = AMP # js ''#44;'' then [COMMA] else enc_plain c) = enc_plain"
    by (rule ext) (simp add: enc_defs)
  moreover have "tok_ok (length (js ''#44;'')) (enc_plain c)" for c
    by (simp add: tok_ok_def enc_defs)
  ultimately show ?thesis
    using replace_lit_tokens [of "js ''#44;''" enc_plain "[COMMA]" s] by (simp add: js_def)
qed

lemma pass_lbracket:
  "replace (lit (js ''&#91;'')) [LBRACKET] (concat (map enc_plain s)) = concat (map enc_rb s)"
proof -
  have "(\<lambda>c. if enc_plain c = AMP # js ''#91;'' then [LBRACKET] else enc_plain c) = enc_rb"
    by (rule ext) (simp add: enc_defs)
  moreover have "tok_ok (length (js ''#91;'')) (enc_plain c)" for c
    by (simp add: tok_ok_def enc_defs)
  ultimately show ?thesis
    using replace_lit_tokens [of "js ''#91;''" enc_plain "[LBRACKET]" s] by (simp add: js_def)
qed

lemma pass_rbracket:
  "replace (lit (js ''&#93;'')) [RBRACKET] (concat (map enc_rb s)) = concat (map enc_amp s)"
proof -
  have "(\<lambda>c. if enc_rb c = AMP # js ''#93;'' then [RBRACKET] else enc_rb c) = enc_amp"
    by (rule ext) (simp add: enc_defs)
  moreover have "tok_ok (length (js ''#93;'')) (enc_rb c)" for c
    by (simp add: tok_ok_def enc_defs)
  ultimately show ?thesis
    using replace_lit_tokens [of "js ''#93;''" enc_rb "[RBRACKET]" s] by (simp add: js_def)
qed

lemma pass_amp:
  "replace (lit (js ''&amp;'')) [AMP] (concat (map enc_amp s)) = s"
proof -
  have "(\<lambda>c. if enc_amp c = AMP # js ''amp;'' then [AMP] else enc_amp c) = (\<lambda>c. [c])"
    by (rule ext) (simp add: enc_defs)
  moreover have "tok_ok (length (js ''amp;'')) (enc_amp c)" for c
    by (simp add: tok_ok_def enc_defs)
  ultimately show ?thesis
    using replace_lit_tokens [of "js ''amp;''" enc_amp "[AMP]" s] by (simp add: js_def)
qed

lemma unescape_enc_inside: "unescape_str (concat (map enc_inside s)) = s"
  by (simp only: unescape_str_def pass_comma_inside pass_lbracket pass_rbracket pass_amp)

lemma unescape_enc_plain: "unescape_str (concat (map enc_plain s)) = s"
  by (simp only: unescape_str_def pass_comma_plain pass_lbracket pass_rbracket pass_amp)

lemma has_pictograph_Cons:
  "has_pictograph (a # xs) =
     ((case xs of [] \<Rightarrow> False | b # _ \<Rightarrow> pictograph2 a b) \<or> pictograph1 a \<or> has_pictograph xs)"
  by (cases xs) auto

lemma pictographs_to_space_id: "\<not> has_pictograph s \<Longrightarrow> pictographs_to_space s = s"
  by (induction s rule: pictographs_to_space.induct)
     (auto simp: pictograph1_def pictograph2_def)

lemma has_pictograph_ascii_prefix:
  "\<forall>c \<in> set u. c < 0x80 \<Longrightarrow> has_pictograph (u @ X) = has_pictograph X"
proof (induction u)
  case Nil show ?case by simp
next
  case (Cons a u)
  then have a: "a < 0x80" by simp
  then have "\<not> pictograph1 a" "\<And>b. \<not> pictograph2 a b"
    by (auto simp: pictograph1_def pictograph2_def word_less_nat_alt word_le_nat_alt)
  with Cons show ?case by (simp add: has_pictograph_Cons [of a] split: list.split)
qed

lemma enc_inside_shape:
  "enc_inside b = [b] \<or> (\<exists>t. enc_inside b = AMP # t \<and> (\<forall>c \<in> set (AMP # t). c < 0x80))"
  by (simp add: enc_defs)

lemma pictograph2_AMP: "\<not> pictograph2 a AMP"
  by (simp add: pictograph2_def)

lemma has_pictograph_enc_inside:
  "\<not> has_pictograph s \<Longrightarrow> \<not> has_pictograph (concat (map enc_inside s))"
proof (induction s)
  case Nil show ?case by simp
next
  case (Cons c s)
  let ?X = "concat (map enc_inside s)"
  from Cons.prems have c1: "\<not> pictograph1 c" and rest: "\<not> has_pictograph s"
    and c2: "\<And>b s'. s = b # s' \<Longrightarrow> \<not> pictograph2 c b"
    by (auto simp: has_pictograph_Cons [of c])
  from rest Cons.IH have X: "\<not> has_pictograph ?X" by simp
  from enc_inside_shape [of c] show ?case
  proof
    assume e: "enc_inside c = [c]"
    have "\<not> pictograph2 c y" if "?X = y # Y" for y Y
    proof (cases s)
      case Nil with that show ?thesis by simp
    next
      case (Cons b s')
      with that enc_inside_shape [of b] have "y = b \<or> y = AMP" by auto
      with c2 [OF Cons] pictograph2_AMP show ?thesis by auto
    qed
    with c1 X e show ?thesis
      by (simp add: has_pictograph_Cons [of c] split: list.split)
  next
    assume "\<exists>t. enc_inside c = AMP # t \<and> (\<forall>c \<in> set (AMP # t). c < 0x80)"
    then obtain t where t: "enc_inside c = AMP # t" "\<forall>c \<in> set (AMP # t). c < 0x80" by blast
    from has_pictograph_ascii_prefix [OF t(2), of ?X] X t(1) show ?thesis by simp
  qed
qed

lemma unescape_escape_plain: "unescape_str (escape_str s False) = s"
  by (simp add: escape_str_def replace_Chr spec_escape_plain_enc [unfolded spec_escape_plain_def]
      unescape_enc_plain)

lemma unescape_escape_inside:
  assumes "\<not> has_pictograph s"
  shows "unescape_str (escape_str s True) = s"
proof -
  have "escape_str s True = pictographs_to_space (concat (map enc_inside s))"
    by (simp add: escape_str_def replace_Chr replace_emoji
        subst_comma_enc [unfolded spec_escape_plain_def])
  also have "\<dots> = concat (map enc_inside s)"
    using assms by (intro pictographs_to_space_id has_pictograph_enc_inside)
  finally show ?thesis by (simp add: unescape_enc_inside)
qed

text \<open>
  C3. \<open>unescape(escape(s, mode)) = s\<close> for every string \<open>s\<close> that holds none of
  the entity sequences \<open>&amp;\<close>, \<open>&#44;\<close>, \<open>&#91;\<close>, \<open>&#93;\<close>, in plain mode; and
  inside a code as well, provided \<open>s\<close> holds no pictographic symbol (which
  escaping there turns into a space, for good). The two lemmas above show that
  the condition on the entity sequences is not needed.
\<close>

theorem unescape_escape_roundtrip:
  assumes "\<not> has_entity s" and "insideCQ \<Longrightarrow> \<not> has_pictograph s"
  shows "unescape (escape (Str s) insideCQ) = Str s"
  using assms(2) by (cases insideCQ) (simp_all add: unescape_escape_plain unescape_escape_inside)

theorem unescape_escape_roundtrip_witness:
  "\<not> has_entity (js ''a,b[c]d&e'') \<and> \<not> has_pictograph (js ''a,b[c]d&e'') \<and>
   unescape (escape (Str (js ''a,b[c]d&e'')) True) = Str (js ''a,b[c]d&e'')"
proof -
  have h1: "\<not> has_entity (js ''a,b[c]d&e'')"
    by (simp add: has_entity_def js_def)
  have h2: "\<not> has_pictograph (js ''a,b[c]d&e'')"
    by (simp add: js_def pictograph1_def pictograph2_def)
  from unescape_escape_roundtrip [OF h1 h2] h1 h2 show ?thesis by simp
qed

text \<open>
  The sun sign \<open>U+2600\<close> holds no entity sequence, and escaping it inside a code
  and unescaping the result gives a space.
\<close>

theorem unescape_escape_counterexample:
  "\<not> has_entity [0x2600] \<and> unescape (escape (Str [0x2600]) True) \<noteq> Str [0x2600]"
  by code_simp

section \<open>Serialization\<close>

lemma join_Cons: "join sep (v # vs) = join_elem v @ concat (map (\<lambda>w. sep @ join_elem w) vs)"
  by (induction vs arbitrary: v) simp_all

lemma isNil_escape: "isNil (escape v b) = isNil v"
  by (cases v) simp_all

lemma join_field:
  "\<not> isNil (snd kv) \<Longrightarrow>
   [COMMA] @ join_elem (Str (join [EQUALS] (map escapeInsideCQ [Str (fst kv), snd kv]))) = spec_field kv"
  by (simp add: spec_field_def join_elem_def escapeInsideCQ_def isNil_escape)

lemma concat_map_filter_cong:
  "(\<And>x. x \<in> set xs \<Longrightarrow> P x \<Longrightarrow> f x = g x) \<Longrightarrow>
   concat (map f (filter P xs)) = concat (map g (filter P xs))"
  by (induction xs) auto

lemma toString_spec: "toString c = spec_serialize c"
proof -
  let ?P = "\<lambda>kv. \<not> isNil (snd kv)"
  have "concat (map (\<lambda>w. [COMMA] @ join_elem w)
          (map (\<lambda>kv. Str (join [EQUALS] (map escapeInsideCQ [Str (fst kv), snd kv])))
               (filter ?P (data c)))) =
        concat (map spec_field (filter ?P (data c)))"
    unfolding map_map comp_def
    by (rule concat_map_filter_cong) (rule join_field)
  then show ?thesis
    by (simp add: toString_def spec_serialize_def Let_def join_Cons join_elem_def js_def)
qed

text \<open>
  C5. Serializing an inline code gives \<open>[CQ:\<close> and the type, then for each field
  in insertion order whose value is not nil a comma, the escaped key, \<open>=\<close> and
  the escaped value, then \<open>]\<close>. A nil field is left out and is no error: a
  reply code whose only field was set and deleted again, or was nil from the
  start, serializes to \<open>[CQ:reply]\<close>.
\<close>

theorem toString_serializes:
  "toString c = spec_serialize c \<and>
   toString (cq_del (cq_set (new_CQCode (Str (js ''reply'')) None) (js ''id'') v) (js ''id''))
     = js ''[CQ:reply]'' \<and>
   reply Undefined = js ''[CQ:reply]'' \<and> reply Null = js ''[CQ:reply]''"
  by (simp add: toString_spec spec_serialize_def cq_del_def cq_set_def new_CQCode_def
      reply_def js_def object_entries_def new_Map_def is_array_index_def is_digit_def)

section \<open>The pattern of an inline code and the scanner\<close>

lemma clear_Nil: "clear [] st = st"
  by (cases st) (simp add: clear_def)

lemma set_star_iter:
  "set (star_iter m st) =
     insert st (\<Union>x \<in> {x \<in> set (m st). length (fst x) < length (fst st)}. set (star_iter m x))"
  by (subst star_iter.simps) auto

lemma rmatch_Star_plain: "groups r = [] \<Longrightarrow> rmatch (Star r) = star_iter (rmatch r)"
  by (rule ext) (simp add: clear_Nil)

declare rmatch.simps(6) [simp del]

lemma set_rmatch_Star:
  assumes "groups r = []"
  shows "set (rmatch (Star r) st) =
     insert st (\<Union>x \<in> {x \<in> set (rmatch r st). length (fst x) < length (fst st)}.
                  set (rmatch (Star r) x))"
  unfolding rmatch_Star_plain [OF assms] by (rule set_star_iter)

lemma rmatch_Class:
  "rmatch (Class neg rs) (s, cs) =
     (case s of [] \<Rightarrow> [] | x # xs \<Rightarrow> if class_matches neg rs x then [(xs, cs)] else [])"
  by (cases s) simp_all

text \<open>The ends a starred class can reach: any number of steps up to the longest run.\<close>

lemma set_rmatch_Star_Class:
  "set (rmatch (Star (Class neg rs)) (s, cs)) =
     (\<lambda>k. (drop k s, cs)) ` {0 .. length (takeWhile (class_matches neg rs) s)}"
proof (induction s)
  case Nil
  show ?case by (subst set_rmatch_Star) simp_all
next
  case (Cons x xs)
  let ?P = "class_matches neg rs"
  show ?case
  proof (cases "?P x")
    case False
    then show ?thesis by (subst set_rmatch_Star) simp_all
  next
    case True
    have "set (rmatch (Star (Class neg rs)) (x # xs, cs)) =
          insert (x # xs, cs) (set (rmatch (Star (Class neg rs)) (xs, cs)))"
      using True by (subst set_rmatch_Star) auto
    also have "\<dots> = insert (x # xs, cs)
        ((\<lambda>k. (drop k xs, cs)) ` {0 .. length (takeWhile ?P xs)})"
      by (simp only: Cons.IH)
    also have "\<dots> = (\<lambda>k. (drop k (x # xs), cs)) ` {0 .. Suc (length (takeWhile ?P xs))}"
      by (simp only: atLeast0_atMost_Suc_eq_insert_0 image_insert image_image drop_Suc_Cons drop_0)
    finally show ?thesis using True by simp
  qed
qed

lemma hd_drop_takeWhile:
  "k < length (takeWhile P s) \<Longrightarrow> drop k s \<noteq> [] \<and> P (hd (drop k s))"
proof -
  assume k: "k < length (takeWhile P s)"
  then have ks: "k < length s"
    using length_takeWhile_le [of P s] by simp
  from k have "takeWhile P s ! k \<in> set (takeWhile P s)" by simp
  then have "P (takeWhile P s ! k)" by (rule set_takeWhileD [THEN conjunct2])
  moreover have "takeWhile P s ! k = s ! k" using k by (rule takeWhile_nth)
  ultimately show ?thesis using ks by (simp add: hd_drop_conv_nth)
qed

text \<open>
  A starred class either goes to the end of the run, or stops in front of a
  character of the class.
\<close>

lemma rmatch_Star_Class_cases:
  assumes "x \<in> set (rmatch (Star (Class neg rs)) (s, cs))"
  shows "snd x = cs \<and> length (fst x) \<le> length s \<and>
         (fst x = dropWhile (class_matches neg rs) s \<or>
          (fst x \<noteq> [] \<and> class_matches neg rs (hd (fst x))))"
proof -
  let ?P = "class_matches neg rs"
  from assms obtain k where k: "k \<le> length (takeWhile ?P s)" and x: "x = (drop k s, cs)"
    by (auto simp: set_rmatch_Star_Class)
  show ?thesis
  proof (cases "k = length (takeWhile ?P s)")
    case True
    with x show ?thesis by (simp add: dropWhile_eq_drop)
  next
    case False
    with k have "k < length (takeWhile ?P s)" by simp
    from hd_drop_takeWhile [OF this] x show ?thesis by simp
  qed
qed

lemma rmatch_Star_Class_greedy:
  "(dropWhile (class_matches neg rs) s, cs) \<in> set (rmatch (Star (Class neg rs)) (s, cs))"
  by (simp add: set_rmatch_Star_Class dropWhile_eq_drop)

lemma rmatch_Plus_Class_cases:
  assumes "x \<in> set (rmatch (Plus (Class neg rs)) (s, cs))"
  shows "takeWhile (class_matches neg rs) s \<noteq> [] \<and> snd x = cs \<and> length (fst x) < length s \<and>
         (fst x = dropWhile (class_matches neg rs) s \<or>
          (fst x \<noteq> [] \<and> class_matches neg rs (hd (fst x))))"
proof (cases s)
  case Nil
  with assms show ?thesis by (simp add: Plus_def)
next
  case (Cons a t)
  with assms have a: "class_matches neg rs a"
    and x: "x \<in> set (rmatch (Star (Class neg rs)) (t, cs))"
    by (auto simp: Plus_def split: if_splits)
  from rmatch_Star_Class_cases [OF x] a Cons show ?thesis by auto
qed

lemma rmatch_Plus_Class_greedy:
  assumes "takeWhile (class_matches neg rs) s \<noteq> []"
  shows "(dropWhile (class_matches neg rs) s, cs) \<in> set (rmatch (Plus (Class neg rs)) (s, cs))"
proof (cases s)
  case Nil
  with assms show ?thesis by simp
next
  case (Cons a t)
  with assms have a: "class_matches neg rs a" by (auto split: if_splits)
  with Cons rmatch_Star_Class_greedy [of neg rs t cs] show ?thesis
    by (simp add: Plus_def)
qed


lemma class_type_char: "class_matches True [one COMMA, one LBRACKET, one RBRACKET] = type_char"
  by (rule ext) (auto simp: class_matches_def in_ranges_def one_def type_char_def)

lemma class_value_char: "class_matches True [one COMMA, one LBRACKET, one RBRACKET] = value_char"
  by (rule ext) (auto simp: class_matches_def in_ranges_def one_def value_char_def)

lemma class_key_char:
  "class_matches True [one COMMA, one EQUALS, one LBRACKET, one RBRACKET] = key_char"
  by (rule ext) (auto simp: class_matches_def in_ranges_def one_def key_char_def)

lemma reg_pair_re:
  "reg = Seq (lit (js ''[CQ:''))
        (Seq (Group 1 (Plus (Class True [one COMMA, one LBRACKET, one RBRACKET])))
        (Seq (Group 2 (Star pair_re)) (Chr RBRACKET)))"
  by (simp add: reg_def pair_re_def)

lemma groups_pair_re: "groups pair_re = []"
  by (simp add: pair_re_def Plus_def)

lemma rmatch_Chr:
  "rmatch (Chr c) (s, cs) = (case s of [] \<Rightarrow> [] | x # xs \<Rightarrow> if x = c then [(xs, cs)] else [])"
  by (cases s) simp_all

lemma rmatch_SeqI:
  "y \<in> set (rmatch a st) \<Longrightarrow> x \<in> set (rmatch b y) \<Longrightarrow> x \<in> set (rmatch (Seq a b) st)"
  by auto

lemma rmatch_SeqE:
  assumes "x \<in> set (rmatch (Seq a b) st)"
  obtains y where "y \<in> set (rmatch a st)" and "x \<in> set (rmatch b y)"
  using assms by auto

text \<open>One pair: the pattern ends where the scanner does, or in front of a value character.\<close>

lemma rmatch_pair_cases:
  assumes "x \<in> set (rmatch pair_re (u, cs))"
  shows "\<exists>kv r. scan_pair u = Some (kv, r) \<and> snd x = cs \<and> length (fst x) < length u \<and>
           (fst x = r \<or> (fst x \<noteq> [] \<and> value_char (hd (fst x))))"
proof -
  from assms obtain t where u: "u = COMMA # t"
    and "x \<in> set (rmatch (Seq (Plus (Class True [one COMMA, one EQUALS, one LBRACKET, one RBRACKET]))
                 (Seq (Chr EQUALS) (Star (Class True [one COMMA, one LBRACKET, one RBRACKET]))))
                 (t, cs))"
    by (auto simp: pair_re_def split: list.splits if_splits)
  then obtain y where
    y: "y \<in> set (rmatch (Plus (Class True [one COMMA, one EQUALS, one LBRACKET, one RBRACKET])) (t, cs))"
    and xy: "x \<in> set (rmatch (Seq (Chr EQUALS) (Star (Class True [one COMMA, one LBRACKET, one RBRACKET]))) y)"
    by auto
  from rmatch_Plus_Class_cases [OF y]
  have key: "takeWhile key_char t \<noteq> []" and ycs: "snd y = cs"
    and ydisj: "fst y = dropWhile key_char t \<or> (fst y \<noteq> [] \<and> key_char (hd (fst y)))"
    by (simp_all add: class_key_char)
  from xy obtain v where yv: "fst y = EQUALS # v"
    and xv: "x \<in> set (rmatch (Star (Class True [one COMMA, one LBRACKET, one RBRACKET])) (v, snd y))"
    by (cases y) (auto split: list.splits if_splits)
  from yv ydisj have d: "dropWhile key_char t = EQUALS # v"
    by (auto simp: key_char_def)
  from rmatch_Star_Class_cases [OF xv] ycs
  have "snd x = cs" and "length (fst x) \<le> length v"
    and "fst x = dropWhile value_char v \<or> (fst x \<noteq> [] \<and> value_char (hd (fst x)))"
    by (simp_all add: class_value_char)
  moreover have "scan_pair u = Some ((takeWhile key_char t, takeWhile value_char v), dropWhile value_char v)"
    using u key d by (simp add: scan_pair_def)
  moreover have "length (EQUALS # v) \<le> length t"
    using length_dropWhile_le [of key_char t] d by simp
  ultimately show ?thesis using u by auto
qed

lemma rmatch_pair_greedy:
  assumes "scan_pair u = Some (kv, r)"
  shows "(r, cs) \<in> set (rmatch pair_re (u, cs))"
proof -
  from assms obtain t v where u: "u = COMMA # t" and key: "takeWhile key_char t \<noteq> []"
    and d: "dropWhile key_char t = EQUALS # v" and r: "r = dropWhile value_char v"
    by (auto simp: scan_pair_def split: list.splits if_splits)
  have 1: "(EQUALS # v, cs) \<in>
        set (rmatch (Plus (Class True [one COMMA, one EQUALS, one LBRACKET, one RBRACKET])) (t, cs))"
    using rmatch_Plus_Class_greedy [of True "[one COMMA, one EQUALS, one LBRACKET, one RBRACKET]" t cs]
      key d by (simp add: class_key_char)
  have 2: "(r, cs) \<in> set (rmatch (Star (Class True [one COMMA, one LBRACKET, one RBRACKET])) (v, cs))"
    using rmatch_Star_Class_greedy [of True "[one COMMA, one LBRACKET, one RBRACKET]" v cs] r
    by (simp add: class_value_char)
  have "(r, cs) \<in> set (rmatch (Seq (Chr EQUALS) (Star (Class True [one COMMA, one LBRACKET, one RBRACKET])))
                         (EQUALS # v, cs))"
    using 2 by simp
  from rmatch_SeqI [OF 1 this] show ?thesis
    unfolding pair_re_def u by (simp del: rmatch.simps(3) rmatch.simps(4) add: rmatch.simps(4) [of "Chr COMMA"])
qed


lemma scan_pair_None_hd: "u \<noteq> [] \<Longrightarrow> hd u \<noteq> COMMA \<Longrightarrow> scan_pair u = None"
  by (cases u) (simp_all add: scan_pair_def split: list.splits)

lemma scan_pair_Some_hd: "scan_pair u = Some p \<Longrightarrow> u \<noteq> [] \<and> hd u = COMMA"
  by (cases u) (auto simp: scan_pair_def split: list.splits if_splits)

lemma starts_with_single: "starts_with [c] s \<longleftrightarrow> s \<noteq> [] \<and> hd s = c"
  by (cases s) auto

text \<open>
  A state the pair loop cannot leave: no pair starts here, so the loop stops at
  once.
\<close>

lemma rmatch_Star_pair_stuck:
  assumes "scan_pair u = None"
  shows "set (rmatch (Star pair_re) (u, cs)) = {(u, cs)}"
proof -
  have "x \<notin> set (rmatch pair_re (u, cs))" for x
    using rmatch_pair_cases [of x u cs] assms by auto
  then have "rmatch pair_re (u, cs) = []"
    by (cases "rmatch pair_re (u, cs)") (simp, metis list.set_intros(1))
  then show ?thesis
    by (subst set_rmatch_Star [OF groups_pair_re]) simp
qed

text \<open>
  The pair loop ends where the scanner does, or somewhere a closing bracket
  cannot follow.
\<close>

lemma rmatch_Star_pair_cases:
  "x \<in> set (rmatch (Star pair_re) (u, cs)) \<Longrightarrow>
   snd x = cs \<and> (fst x = snd (scan_pairs u) \<or> \<not> starts_with [RBRACKET] (fst x))"
proof (induction u arbitrary: x rule: scan_pairs.induct)
  case (1 s)
  show ?case
  proof (cases "scan_pair s")
    case None
    with "1.prems" have "x = (s, cs)" by (simp add: rmatch_Star_pair_stuck)
    with None show ?thesis by (simp add: scan_pairs.simps [of s])
  next
    case (Some p)
    obtain kv r where p: "p = (kv, r)" by (cases p)
    from scan_pair_Some_hd [OF Some] have comma: "s \<noteq> [] \<and> hd s = COMMA" .
    from "1.prems" consider "x = (s, cs)"
      | y where "y \<in> set (rmatch pair_re (s, cs))" "x \<in> set (rmatch (Star pair_re) y)"
      by (subst (asm) set_rmatch_Star [OF groups_pair_re]) auto
    then show ?thesis
    proof cases
      case 1
      with comma show ?thesis by (simp add: starts_with_single)
    next
      case 2
      from rmatch_pair_cases [OF 2(1)] Some p
      have ycs: "snd y = cs" and yd: "fst y = r \<or> (fst y \<noteq> [] \<and> value_char (hd (fst y)))"
        by auto
      from yd show ?thesis
      proof
        assume "fst y = r"
        with ycs have "y = (r, cs)" by (cases y) simp
        with 2(2) "1.IH" [OF Some p [symmetric]] Some p show ?thesis
          by (simp add: scan_pairs.simps [of s])
      next
        assume v: "fst y \<noteq> [] \<and> value_char (hd (fst y))"
        then have "scan_pair (fst y) = None"
          by (intro scan_pair_None_hd) (auto simp: value_char_def)
        with 2(2) ycs have "x = y"
          using rmatch_Star_pair_stuck [of "fst y" "snd y"] by (cases y) simp
        with v ycs show ?thesis
          by (auto simp: starts_with_single value_char_def)
      qed
    qed
  qed
qed

lemma rmatch_Star_pair_greedy:
  "(snd (scan_pairs u), cs) \<in> set (rmatch (Star pair_re) (u, cs))"
proof (induction u rule: scan_pairs.induct)
  case (1 s)
  show ?case
  proof (cases "scan_pair s")
    case None
    then show ?thesis
      by (simp add: rmatch_Star_pair_stuck scan_pairs.simps [of s])
  next
    case (Some p)
    obtain kv r where p: "p = (kv, r)" by (cases p)
    from Some p have "(r, cs) \<in> set (rmatch pair_re (s, cs))"
      by (intro rmatch_pair_greedy) simp
    moreover have "length r < length s"
      using Some p by (intro scan_pair_shorter) simp
    moreover have "(snd (scan_pairs r), cs) \<in> set (rmatch (Star pair_re) (r, cs))"
      by (rule "1.IH" [OF Some p [symmetric]])
    ultimately have "(snd (scan_pairs r), cs) \<in> set (rmatch (Star pair_re) (s, cs))"
      by (subst set_rmatch_Star [OF groups_pair_re]) force
    with Some p show ?thesis by (simp add: scan_pairs.simps [of s])
  qed
qed

lemma rmatch_GroupI:
  "y \<in> set (rmatch r st) \<Longrightarrow>
   (fst y, (snd y)(n \<mapsto> take (length (fst st) - length (fst y)) (fst st)))
     \<in> set (rmatch (Group n r) st)"
  by auto

lemma rmatch_GroupE:
  assumes "x \<in> set (rmatch (Group n r) st)"
  obtains y where "y \<in> set (rmatch r st)"
    and "x = (fst y, (snd y)(n \<mapsto> take (length (fst st) - length (fst y)) (fst st)))"
  using assms by auto

lemma take_minus_dropWhile: "take (length t - length (dropWhile P t)) t = takeWhile P t"
proof -
  have "length (takeWhile P t @ dropWhile P t) = length t"
    by (simp only: takeWhile_dropWhile_id)
  then have "length (takeWhile P t) + length (dropWhile P t) = length t"
    by (simp only: length_append)
  then have e: "length t - length (dropWhile P t) = length (takeWhile P t)"
    by simp
  show ?thesis unfolding e by (rule takeWhile_eq_take [symmetric])
qed

lemma scan_pairs_stuck: "scan_pair u = None \<Longrightarrow> scan_pairs u = ([], u)"
  by (simp add: scan_pairs.simps [of u])

lemma rmatch_lit_CQ:
  "rmatch (lit (js ''[CQ:'')) (s, cs) =
     (if starts_with (js ''[CQ:'') s then [(drop 4 s, cs)] else [])"
proof -
  have "length (js ''[CQ:'') = 4" by (simp add: js_def)
  then show ?thesis by (simp only: rmatch_lit)
qed

text \<open>Every way the pattern matches at the start of \<open>s\<close> is the scanner's.\<close>

lemma rmatch_reg_cases:
  assumes "x \<in> set (rmatch reg (s, Map.empty))"
  shows "\<exists>ty d rest. scan_raw s = Some (ty, d, rest) \<and> x = (rest, [1 \<mapsto> ty, 2 \<mapsto> d])"
proof -
  let ?T = "Class True [one COMMA, one LBRACKET, one RBRACKET]"
  let ?t = "drop 4 s"
  let ?u = "dropWhile type_char ?t"
  let ?r = "snd (scan_pairs ?u)"
  from assms
  have "x \<in> set (concat (map (rmatch (Seq (Group 1 (Plus ?T)) (Seq (Group 2 (Star pair_re)) (Chr RBRACKET))))
                  (rmatch (lit (js ''[CQ:'')) (s, Map.empty))))"
    unfolding reg_pair_re by (simp only: rmatch.simps(4))
  then have sw: "starts_with (js ''[CQ:'') s"
    and x1: "x \<in> set (rmatch (Seq (Group 1 (Plus ?T)) (Seq (Group 2 (Star pair_re)) (Chr RBRACKET)))
                    (?t, Map.empty))"
    by (auto simp add: rmatch_lit_CQ simp del: rmatch.simps One_nat_def split: if_splits)
  from x1 obtain y1 where y1: "y1 \<in> set (rmatch (Group 1 (Plus ?T)) (?t, Map.empty))"
    and x2: "x \<in> set (rmatch (Seq (Group 2 (Star pair_re)) (Chr RBRACKET)) y1)"
    by (rule rmatch_SeqE)
  from y1 obtain y0 where y0: "y0 \<in> set (rmatch (Plus ?T) (?t, Map.empty))"
    and y1eq: "y1 = (fst y0, (snd y0)(1 \<mapsto> take (length ?t - length (fst y0)) ?t))"
    by (rule rmatch_GroupE) simp
  from x2 obtain z1 where z1: "z1 \<in> set (rmatch (Group 2 (Star pair_re)) y1)"
    and x3: "x \<in> set (rmatch (Chr RBRACKET) z1)"
    by (rule rmatch_SeqE)
  from z1 obtain z0 where z0: "z0 \<in> set (rmatch (Star pair_re) y1)"
    and z1eq: "z1 = (fst z0, (snd z0)(2 \<mapsto> take (length (fst y1) - length (fst z0)) (fst y1)))"
    by (rule rmatch_GroupE)
  from x3 have rb: "starts_with [RBRACKET] (fst z1)" and xeq: "x = (tl (fst z1), snd z1)"
    by (cases z1; cases "fst z1"; auto split: if_splits)+
  from rmatch_Star_pair_cases [of z0 "fst y1" "snd y1"] z0 rb z1eq
  have z0cs: "snd z0 = snd y1" and z0r: "fst z0 = snd (scan_pairs (fst y1))"
    by simp_all
  from rmatch_Plus_Class_cases [OF y0]
  have ty: "takeWhile type_char ?t \<noteq> []" and y0cs: "snd y0 = Map.empty"
    and y0d: "fst y0 = ?u \<or> (fst y0 \<noteq> [] \<and> type_char (hd (fst y0)))"
    by (simp_all add: class_type_char)
  have y0u: "fst y0 = ?u"
  proof (rule ccontr)
    assume "fst y0 \<noteq> ?u"
    with y0d have d: "fst y0 \<noteq> []" "type_char (hd (fst y0))" by simp_all
    then have "scan_pair (fst y0) = None"
      by (intro scan_pair_None_hd) (auto simp: type_char_def)
    then have "fst z0 = fst y0"
      using z0r y1eq by (simp add: scan_pairs_stuck)
    with rb z1eq d show False
      by (simp add: starts_with_single type_char_def)
  qed
  have y1': "y1 = (?u, [1 \<mapsto> takeWhile type_char ?t])"
    by (simp only: y1eq y0u y0cs take_minus_dropWhile)
  have z1': "z1 = (?r, [1 \<mapsto> takeWhile type_char ?t, 2 \<mapsto> take (length ?u - length ?r) ?u])"
    by (simp only: z1eq z0r z0cs y1' fst_conv snd_conv)
  have "scan_raw s = Some (takeWhile type_char ?t, take (length ?u - length ?r) ?u, tl ?r)"
    using sw ty rb [unfolded z1' fst_conv] by (simp add: scan_raw_def Let_def)
  moreover have "x = (tl ?r, [1 \<mapsto> takeWhile type_char ?t, 2 \<mapsto> take (length ?u - length ?r) ?u])"
    by (simp only: xeq z1' fst_conv snd_conv)
  ultimately show ?thesis by blast
qed

lemma rmatch_reg_greedy:
  assumes "scan_raw s = Some (ty, d, rest)"
  shows "(rest, [1 \<mapsto> ty, 2 \<mapsto> d]) \<in> set (rmatch reg (s, Map.empty))"
proof -
  let ?T = "Class True [one COMMA, one LBRACKET, one RBRACKET]"
  let ?t = "drop 4 s"
  let ?u = "dropWhile type_char ?t"
  let ?r = "snd (scan_pairs ?u)"
  let ?c1 = "[1 \<mapsto> ty]"
  from assms have sw: "starts_with (js ''[CQ:'') s" and ty: "takeWhile type_char ?t \<noteq> []"
    and rb: "starts_with [RBRACKET] ?r" and tyeq: "ty = takeWhile type_char ?t"
    and deq: "d = take (length ?u - length ?r) ?u" and resteq: "rest = tl ?r"
    by (auto simp: scan_raw_def Let_def split: if_splits)
  have "(?u, Map.empty) \<in> set (rmatch (Plus ?T) (?t, Map.empty))"
    using rmatch_Plus_Class_greedy [of True "[one COMMA, one LBRACKET, one RBRACKET]" ?t Map.empty] ty
    by (simp add: class_type_char)
  from rmatch_GroupI [OF this, of 1]
  have g1: "(?u, ?c1) \<in> set (rmatch (Group 1 (Plus ?T)) (?t, Map.empty))"
    by (simp only: fst_conv snd_conv take_minus_dropWhile tyeq)
  from rmatch_GroupI [OF rmatch_Star_pair_greedy [of ?u ?c1], of 2]
  have g2: "(?r, [1 \<mapsto> ty, 2 \<mapsto> d]) \<in> set (rmatch (Group 2 (Star pair_re)) (?u, ?c1))"
    by (simp only: fst_conv snd_conv deq)
  have g3: "(rest, [1 \<mapsto> ty, 2 \<mapsto> d]) \<in> set (rmatch (Chr RBRACKET) (?r, [1 \<mapsto> ty, 2 \<mapsto> d]))"
    using rb resteq by (cases ?r) auto
  have "(rest, [1 \<mapsto> ty, 2 \<mapsto> d]) \<in>
        set (rmatch (Seq (Group 1 (Plus ?T)) (Seq (Group 2 (Star pair_re)) (Chr RBRACKET)))
               (?t, Map.empty))"
    by (rule rmatch_SeqI [OF g1 rmatch_SeqI [OF g2 g3]])
  moreover have "rmatch (lit (js ''[CQ:'')) (s, Map.empty) = [(?t, Map.empty)]"
    using sw by (simp add: rmatch_lit_CQ)
  ultimately show ?thesis
    unfolding reg_pair_re
    by (simp only: rmatch.simps(4) [of "lit (js ''[CQ:'')"]) simp
qed

lemma first_match_reg:
  "first_match reg s =
     (case scan_raw s of None \<Rightarrow> None
      | Some (ty, d, rest) \<Rightarrow> Some (rest, [1 \<mapsto> ty, 2 \<mapsto> d]))"
proof (cases "rmatch reg (s, Map.empty)")
  case Nil
  have "scan_raw s = None"
  proof (cases "scan_raw s")
    case (Some p)
    obtain ty d rest where "p = (ty, d, rest)" by (cases p)
    with Some rmatch_reg_greedy [of s ty d rest] Nil show ?thesis by simp
  qed simp
  with Nil show ?thesis by (simp add: first_match_def)
next
  case (Cons x xs)
  then have "x \<in> set (rmatch reg (s, Map.empty))" by simp
  from rmatch_reg_cases [OF this] Cons show ?thesis
    by (auto simp: first_match_def)
qed


section \<open>The captured field text and the scanned pairs\<close>

lemma scan_pair_text:
  assumes "scan_pair u = Some (kv, r)"
  shows "u = pair_text kv @ r \<and> fst kv \<noteq> [] \<and> (\<forall>c \<in> set (fst kv). key_char c) \<and>
         (\<forall>c \<in> set (snd kv). value_char c)"
proof -
  from assms obtain t v where u: "u = COMMA # t" and key: "takeWhile key_char t \<noteq> []"
    and d: "dropWhile key_char t = EQUALS # v"
    and kv: "kv = (takeWhile key_char t, takeWhile value_char v)" and r: "r = dropWhile value_char v"
    by (auto simp: scan_pair_def split: list.splits if_splits)
  have "t = takeWhile key_char t @ EQUALS # v"
    using takeWhile_dropWhile_id [of key_char t] d by simp
  moreover have "v = takeWhile value_char v @ dropWhile value_char v" by simp
  ultimately have "u = pair_text kv @ r"
    using u kv r by (simp add: pair_text_def)
  moreover have "\<forall>c \<in> set (takeWhile key_char t). key_char c"
    by (auto dest: set_takeWhileD)
  moreover have "\<forall>c \<in> set (takeWhile value_char v). value_char c"
    by (auto dest: set_takeWhileD)
  ultimately show ?thesis using kv key by simp
qed

lemma scan_pairs_text:
  "u = concat (map pair_text (fst (scan_pairs u))) @ snd (scan_pairs u) \<and>
   list_all wf_pair (fst (scan_pairs u))"
proof (induction u rule: scan_pairs.induct)
  case (1 s)
  show ?case
  proof (cases "scan_pair s")
    case None
    then show ?thesis by (simp add: scan_pairs.simps [of s])
  next
    case (Some p)
    obtain kv r where p: "p = (kv, r)" by (cases p)
    from scan_pair_text [of s kv r] Some p
    have s: "s = pair_text kv @ r" and kv: "wf_pair kv"
      by (simp_all add: wf_pair_def list_all_iff)
    have sp: "scan_pairs s = (kv # fst (scan_pairs r), snd (scan_pairs r))"
      using Some p by (simp add: scan_pairs.simps [of s])
    from "1.IH" [OF Some p [symmetric]]
    have r: "r = concat (map pair_text (fst (scan_pairs r))) @ snd (scan_pairs r)"
      and wf: "list_all wf_pair (fst (scan_pairs r))"
      by simp_all
    have "pair_text kv @ r =
          pair_text kv @ concat (map pair_text (fst (scan_pairs r))) @ snd (scan_pairs r)"
      by (rule arg_cong [OF r])
    with s have "s = concat (map pair_text (kv # fst (scan_pairs r))) @ snd (scan_pairs r)"
      by (simp only: list.map concat.simps append_assoc)
    with kv wf show ?thesis
      unfolding sp by simp
  qed
qed

lemma scan_pairs_captured:
  "take (length u - length (snd (scan_pairs u))) u = concat (map pair_text (fst (scan_pairs u)))"
proof -
  let ?a = "concat (map pair_text (fst (scan_pairs u)))" and ?r = "snd (scan_pairs u)"
  have u: "u = ?a @ ?r" using scan_pairs_text [of u] by simp
  have "length u - length ?r = length ?a"
    by (subst u) simp
  then have "take (length u - length ?r) u = take (length ?a) (?a @ ?r)"
    using u by simp
  then show ?thesis by simp
qed

section \<open>The parsing loop\<close>

lemma split_no_sep: "sep \<notin> set w \<Longrightarrow> split sep w = [w]"
  by (induction w) auto

lemma split_append_sep:
  "sep \<notin> set w \<Longrightarrow> split sep (w @ sep # s) = w # split sep s"
  by (induction w) auto

lemma split_not_Nil: "split sep s \<noteq> []"
  by (induction s) (auto split: list.splits)

lemma join_Str_Cons:
  "join sep (Str (x # p) # vs) = x # join sep (Str p # vs)"
  by (simp add: join_Cons join_elem_def)

lemma join_split: "join [c] (map Str (split c v)) = v"
proof (induction v)
  case Nil
  show ?case by (simp add: join_elem_def)
next
  case (Cons x v)
  obtain p ps where sp: "split c v = p # ps"
    using split_not_Nil [of c v] by (cases "split c v") auto
  show ?case
  proof (cases "x = c")
    case True
    with Cons sp show ?thesis by (simp add: join_elem_def)
  next
    case False
    with Cons sp show ?thesis by (simp add: join_Str_Cons)
  qed
qed

lemma key_char_not_EQUALS: "list_all key_char k \<Longrightarrow> EQUALS \<notin> set k"
  by (auto simp: list_all_iff key_char_def)

lemma key_char_not_COMMA: "list_all key_char k \<Longrightarrow> COMMA \<notin> set k"
  by (auto simp: list_all_iff key_char_def)

lemma value_char_not_COMMA: "list_all value_char v \<Longrightarrow> COMMA \<notin> set v"
  by (auto simp: list_all_iff value_char_def)

lemma kv_entry_pair:
  assumes "wf_pair kv"
  shows "kv_entry (pair_body kv) = (unescape_str (fst kv), unescape_str (snd kv))"
proof -
  from assms have "EQUALS \<notin> set (fst kv)"
    by (simp add: wf_pair_def key_char_not_EQUALS)
  then have "split EQUALS (pair_body kv) = fst kv # split EQUALS (snd kv)"
    unfolding pair_body_def by (rule split_append_sep)
  then show ?thesis by (simp add: kv_entry_def join_split)
qed

lemma split_pairs_text:
  assumes "list_all wf_pair kvs" and "COMMA \<notin> set w"
  shows "split COMMA (w @ concat (map pair_text kvs)) = w # map pair_body kvs"
  using assms
proof (induction kvs arbitrary: w)
  case Nil
  then show ?case by (simp add: split_no_sep)
next
  case (Cons kv kvs)
  from Cons.prems have wf: "wf_pair kv" and rest: "list_all wf_pair kvs" by simp_all
  from wf have "COMMA \<notin> set (pair_body kv)"
    by (auto simp: wf_pair_def pair_body_def dest: key_char_not_COMMA value_char_not_COMMA)
  from Cons.IH [OF rest this]
  have 1: "split COMMA (pair_body kv @ concat (map pair_text kvs)) = pair_body kv # map pair_body kvs" .
  have 2: "w @ concat (map pair_text (kv # kvs)) =
           w @ COMMA # (pair_body kv @ concat (map pair_text kvs))"
    by (simp add: pair_text_def pair_body_def)
  have "split COMMA (w @ COMMA # (pair_body kv @ concat (map pair_text kvs))) =
        w # split COMMA (pair_body kv @ concat (map pair_text kvs))"
    using Cons.prems(2) by (rule split_append_sep)
  then show ?case unfolding 2 1 by simp
qed

lemma parse_data_pairs:
  assumes "list_all wf_pair kvs"
  shows "parse_data (concat (map pair_text kvs)) =
         assign_all (map (\<lambda>kv. (unescape_str (fst kv), unescape_str (snd kv))) kvs)"
proof -
  have "parse_data (concat (map pair_text kvs)) =
        assign_all (map kv_entry (filter (\<lambda>kv. kv \<noteq> []) (split COMMA (concat (map pair_text kvs)))))"
    by (simp add: parse_data_def assign_all_def foldl_map)
  also have "split COMMA (concat (map pair_text kvs)) = [] # map pair_body kvs"
    using split_pairs_text [OF assms, of "[]"] by simp
  also have "filter (\<lambda>kv. kv \<noteq> []) ([] # map pair_body kvs) = map pair_body kvs"
    by (induction kvs) (simp_all add: pair_body_def)
  also have "map kv_entry (map pair_body kvs) =
             map (\<lambda>kv. (unescape_str (fst kv), unescape_str (snd kv))) kvs"
    using assms by (induction kvs) (simp_all add: kv_entry_pair)
  finally show ?thesis .
qed

text \<open>The match at the start of a text, in terms of the scanner.\<close>

lemma scan_raw_code:
  "scan_raw s =
     (case scan_code s of None \<Rightarrow> None
      | Some (c, r) \<Rightarrow> Some (fst c, concat (map pair_text (snd c)), r))"
  by (simp add: scan_raw_def scan_code_def Let_def scan_pairs_captured)

lemma scan_code_wf: "scan_code s = Some (c, r) \<Longrightarrow> list_all wf_pair (snd c)"
  using scan_pairs_text by (auto simp: scan_code_def Let_def split: if_splits)

lemma first_match_reg_code:
  "first_match reg s =
     (case scan_code s of None \<Rightarrow> None
      | Some (c, r) \<Rightarrow> Some (r, [1 \<mapsto> fst c, 2 \<mapsto> concat (map pair_text (snd c))]))"
  by (simp add: first_match_reg scan_raw_code split: option.split)

lemma from_loop_step_match:
  assumes "scan_code s = Some (c, r)"
  shows "from_loop s acc = from_loop r (acc @ [code_of_match c])"
proof -
  have e: "exec reg s = Some (r, [1 \<mapsto> fst c, 2 \<mapsto> concat (map pair_text (snd c))])"
    using assms by (cases s) (simp_all add: first_match_reg_code)
  have "parse_data (concat (map pair_text (snd c))) =
        assign_all (map (\<lambda>kv. (unescape_str (fst kv), unescape_str (snd kv))) (snd c))"
    using scan_code_wf [OF assms] by (rule parse_data_pairs)
  then show ?thesis
    by (subst from_loop.simps) (simp add: e code_of_match_def)
qed

lemma from_loop_step_skip:
  assumes "scan_code (x # t) = None"
  shows "from_loop (x # t) acc = from_loop t acc"
proof -
  have "exec reg (x # t) = exec reg t"
    using assms by (simp add: first_match_reg_code)
  then show ?thesis
    by (subst from_loop.simps, subst (2) from_loop.simps) simp
qed

lemma from_loop_Nil: "from_loop [] acc = Some (Inr acc)"
proof -
  have "scan_code [] = None" by (simp add: scan_code_def js_def)
  then have "exec reg [] = None" by (simp add: first_match_reg_code)
  then show ?thesis by (subst from_loop.simps) simp
qed

lemma from_loop_scan: "from_loop s acc = Some (Inr (acc @ map code_of_match (scan_all s)))"
proof (induction s arbitrary: acc rule: scan_all.induct)
  case (1 s)
  show ?case
  proof (cases "scan_code s")
    case (Some p)
    obtain c r where p: "p = (c, r)" by (cases p)
    from Some p have sc: "scan_code s = Some (c, r)" by simp
    from "1.IH"(2) [OF Some p [symmetric]] from_loop_step_match [OF sc] sc
    show ?thesis by (simp add: scan_all.simps [of s])
  next
    case None
    show ?thesis
    proof (cases s)
      case Nil
      with None show ?thesis by (simp add: from_loop_Nil scan_all.simps [of "[]"])
    next
      case (Cons x t)
      from "1.IH"(1) [OF None Cons] from_loop_step_skip [of x t acc] None Cons
      show ?thesis by (simp add: scan_all.simps [of "x # t"])
    qed
  qed
qed

text \<open>
  C7. For every text, \<open>CQCode.from\<close> returns, and returns a list of codes, not an
  error: also for a text with unbalanced brackets or a \<open>[CQ:\<close> that is never
  closed. What does not form an inline code is not in the list.
\<close>

theorem from_total:
  "(\<exists>codes. cq_from s = Some (Inr codes)) \<and>
   cq_from (js ''[CQ:at,qq=1'') = Some (Inr []) \<and>
   cq_from (js '']x[ [CQ: [CQ:a,=v] [[CQ:ok]'') = Some (Inr [\<lparr>type = Str (js ''ok''), data = []\<rparr>])"
proof -
  have "map code_of_match (scan_all (js ''[CQ:at,qq=1'')) = []"
    by code_simp
  moreover have "map code_of_match (scan_all (js '']x[ [CQ: [CQ:a,=v] [[CQ:ok]'')) =
                   [\<lparr>type = Str (js ''ok''), data = []\<rparr>]"
    by code_simp
  ultimately show ?thesis
    by (simp add: cq_from_def from_loop_scan)
qed

section \<open>Serializing, then parsing\<close>

lemma escape_str_inside_enc:
  "escape_str s True = pictographs_to_space (concat (map enc_inside s))"
  by (simp add: escape_str_def replace_Chr replace_emoji
      subst_comma_enc [unfolded spec_escape_plain_def])

lemma enc_inside_reserved_free: "reserved_free s \<Longrightarrow> concat (map enc_inside s) = s"
  by (induction s) (simp_all add: reserved_free_def enc_inside_def enc_plain_def)

lemma escape_plain_text: "plain_text s \<Longrightarrow> escape_str s True = s"
  by (simp add: plain_text_def escape_str_inside_enc enc_inside_reserved_free
      pictographs_to_space_id)

lemma replace_lit_Nil: "replace (lit (c # w)) rep [] = []"
  by (subst replace.simps) (simp add: first_match_lit)

lemma replace_lit_absent: "c \<notin> set s \<Longrightarrow> replace (lit (c # w)) rep s = s"
  using replace_lit_skip [of c s w rep "[]"] by (simp add: replace_lit_Nil)

lemma unescape_no_amp: "AMP \<notin> set s \<Longrightarrow> unescape_str s = s"
  by (simp add: unescape_str_def js_def replace_lit_absent)

lemma reserved_free_chars:
  assumes "reserved_free s"
  shows "list_all key_char s" and "list_all value_char s" and "AMP \<notin> set s"
  using assms by (auto simp: reserved_free_def list_all_iff key_char_def value_char_def)

text \<open>The digits of a number are plain text.\<close>

lemma digit_plain:
  assumes "n < 10"
  shows "reserved_free [0x30 + of_nat n] \<and> \<not> pictograph1 (0x30 + of_nat n) \<and>
         (0x30 + of_nat n :: jschar) < 0x80"
proof -
  from assms have "n \<in> {0, 1, 2, 3, 4, 5, 6, 7, 8, 9}" by auto
  then show ?thesis
    by (auto simp: reserved_free_def pictograph1_def)
qed


lemma ascii_no_pictograph: "\<forall>c \<in> set s. c < 0x80 \<Longrightarrow> \<not> has_pictograph s"
  using has_pictograph_ascii_prefix [of s "[]"] by simp

lemma reserved_free_append: "reserved_free (a @ b) \<longleftrightarrow> reserved_free a \<and> reserved_free b"
  by (simp add: reserved_free_def)

lemma nat_digits_plain:
  "reserved_free (nat_digits n) \<and> (\<forall>c \<in> set (nat_digits n). c < 0x80)"
proof (induction n rule: nat_digits.induct)
  case (1 n)
  show ?case
  proof (cases "n < 10")
    case True
    with digit_plain [of n] show ?thesis by (simp add: nat_digits.simps [of n])
  next
    case False
    with "1.IH" digit_plain [of "n mod 10"] show ?thesis
      by (simp add: nat_digits.simps [of n] reserved_free_append)
  qed
qed

lemma number_to_string_plain: "plain_text (number_to_string n)"
proof -
  have "reserved_free (number_to_string n)"
    using nat_digits_plain by (simp add: number_to_string_def reserved_free_def)
  moreover have "\<forall>c \<in> set (number_to_string n). c < 0x80"
    using nat_digits_plain by (simp add: number_to_string_def)
  ultimately show ?thesis by (simp add: plain_text_def ascii_no_pictograph)
qed

lemma serial_ok_text:
  assumes "serial_ok kv"
  shows "plain_text (fst kv)" and "plain_text (to_string (snd kv))" and "\<not> isNil (snd kv)"
    and "to_string (escape (snd kv) True) = to_string (snd kv)"
  using assms
  by (auto simp: serial_ok_def number_to_string_plain escape_plain_text split: jsval.splits)

lemma serial_ok_wf: "serial_ok kv \<Longrightarrow> wf_pair (field_text kv)"
  using serial_ok_text [of kv]
  by (simp add: wf_pair_def field_text_def plain_text_def reserved_free_chars serial_ok_def)

lemma spec_field_plain: "serial_ok kv \<Longrightarrow> spec_field kv = pair_text (field_text kv)"
  using serial_ok_text [of kv]
  by (simp add: spec_field_def pair_text_def field_text_def escape_plain_text)

text \<open>What a code with plain fields serializes to.\<close>

lemma toString_plain:
  assumes "type e = Str t" and "list_all serial_ok (data e)"
  shows "toString e = js ''[CQ:'' @ t @ concat (map pair_text (map field_text (data e))) @ [RBRACKET]"
proof -
  have f: "filter (\<lambda>kv. \<not> isNil (snd kv)) (data e) = data e"
    using assms(2) serial_ok_text(3) by (auto simp: list_all_iff intro: filter_True)
  have "list_all serial_ok xs \<Longrightarrow> map spec_field xs = map pair_text (map field_text xs)" for xs
    by (induction xs) (simp_all add: spec_field_plain)
  then have m: "map spec_field (data e) = map pair_text (map field_text (data e))"
    using assms(2) by blast
  show ?thesis
    unfolding toString_spec spec_serialize_def f m assms(1) by (simp add: js_def)
qed

section \<open>Scanning what was serialized\<close>

lemma takeWhile_stop: "(\<forall>c \<in> set a. P c) \<Longrightarrow> z \<noteq> [] \<Longrightarrow> \<not> P (hd z) \<Longrightarrow> takeWhile P (a @ z) = a"
  by (cases z) (simp_all add: takeWhile_append2)

lemma dropWhile_stop: "(\<forall>c \<in> set a. P c) \<Longrightarrow> z \<noteq> [] \<Longrightarrow> \<not> P (hd z) \<Longrightarrow> dropWhile P (a @ z) = z"
  by (cases z) (simp_all add: dropWhile_append2)

lemma scan_pair_inv:
  assumes "wf_pair kv" and "z \<noteq> []" and "\<not> value_char (hd z)"
  shows "scan_pair (pair_text kv @ z) = Some (kv, z)"
proof -
  obtain k v where kv: "kv = (k, v)" by (cases kv)
  from assms(1) kv have k: "k \<noteq> []" "\<forall>c \<in> set k. key_char c" and v: "\<forall>c \<in> set v. value_char c"
    by (simp_all add: wf_pair_def list_all_iff)
  have e: "\<not> key_char (hd (EQUALS # v @ z))" by (simp add: key_char_def)
  have 1: "takeWhile key_char (k @ EQUALS # v @ z) = k"
    by (rule takeWhile_stop [OF k(2) _ e]) simp
  have 2: "dropWhile key_char (k @ EQUALS # v @ z) = EQUALS # v @ z"
    by (rule dropWhile_stop [OF k(2) _ e]) simp
  have 3: "takeWhile value_char (v @ z) = v" "dropWhile value_char (v @ z) = z"
    by (rule takeWhile_stop [OF v assms(2,3)], rule dropWhile_stop [OF v assms(2,3)])
  show ?thesis
    using k(1) by (simp add: scan_pair_def pair_text_def kv 1 2 3)
qed

lemma scan_pairs_inv:
  "list_all wf_pair ps \<Longrightarrow>
   scan_pairs (concat (map pair_text ps) @ [RBRACKET]) = (ps, [RBRACKET])"
proof (induction ps)
  case Nil
  have "scan_pair [RBRACKET] = None" by (simp add: scan_pair_def)
  then show ?case by (simp add: scan_pairs_stuck)
next
  case (Cons kv ps)
  let ?z = "concat (map pair_text ps) @ [RBRACKET]"
  have z: "?z \<noteq> []" "\<not> value_char (hd ?z)"
    by (cases ps; simp add: pair_text_def value_char_def)+
  from Cons.prems have "wf_pair kv" by simp
  from scan_pair_inv [OF this z]
  have "scan_pair (concat (map pair_text (kv # ps)) @ [RBRACKET]) = Some (kv, ?z)" by simp
  moreover from Cons have "scan_pairs ?z = (ps, [RBRACKET])" by simp
  ultimately show ?case
    by (subst scan_pairs.simps) simp
qed

lemma scan_code_inv:
  assumes "t \<noteq> []" and "list_all type_char t" and "list_all wf_pair ps"
  shows "scan_code (js ''[CQ:'' @ t @ concat (map pair_text ps) @ [RBRACKET]) = Some ((t, ps), [])"
proof -
  let ?z = "concat (map pair_text ps) @ [RBRACKET]"
  have z: "?z \<noteq> []" "\<not> type_char (hd ?z)"
    by (cases ps; simp add: pair_text_def type_char_def)+
  have t: "\<forall>c \<in> set t. type_char c" using assms(2) by (simp add: list_all_iff)
  have 1: "takeWhile type_char (t @ ?z) = t" "dropWhile type_char (t @ ?z) = ?z"
    by (rule takeWhile_stop [OF t z], rule dropWhile_stop [OF t z])
  have 2: "drop 4 (js ''[CQ:'' @ t @ ?z) = t @ ?z" by (simp add: js_def)
  have 3: "starts_with (js ''[CQ:'') (js ''[CQ:'' @ t @ ?z)" by (rule starts_with_self)
  show ?thesis
    using assms(1) scan_pairs_inv [OF assms(3)]
    by (simp only: scan_code_def 3 2 1 Let_def) simp
qed

lemma scan_all_Nil: "scan_all [] = []"
proof -
  have "scan_code [] = None" by (simp add: scan_code_def js_def)
  then show ?thesis by (subst scan_all.simps) simp
qed

lemma scan_all_inv:
  assumes "t \<noteq> []" and "list_all type_char t" and "list_all wf_pair ps"
  shows "scan_all (js ''[CQ:'' @ t @ concat (map pair_text ps) @ [RBRACKET]) = [(t, ps)]"
  by (subst scan_all.simps) (simp add: scan_code_inv [OF assms] scan_all_Nil)


section \<open>Building the entity back\<close>

lemma update_fresh: "k \<notin> fst ` set m \<Longrightarrow> AList.update k v m = m @ [(k, v)]"
  by (induction m) auto

lemma foldl_update_fresh:
  "distinct (map fst xs) \<Longrightarrow> fst ` set xs \<inter> fst ` set acc = {} \<Longrightarrow>
   foldl (\<lambda>m kv. AList.update (fst kv) (snd kv) m) acc xs = acc @ xs"
proof (induction xs arbitrary: acc)
  case Nil
  show ?case by simp
next
  case (Cons x xs)
  from Cons.prems have fresh: "fst x \<notin> fst ` set acc" by auto
  have "foldl (\<lambda>m kv. AList.update (fst kv) (snd kv) m) (acc @ [x]) xs = (acc @ [x]) @ xs"
    using Cons.prems by (intro Cons.IH) (auto simp: image_iff)
  with fresh show ?case by (simp add: update_fresh)
qed

lemma new_Map_distinct: "distinct (map fst xs) \<Longrightarrow> new_Map xs = xs"
  using foldl_update_fresh [of xs "[]"] by (simp add: new_Map_def)

lemma assign_all_distinct:
  assumes "distinct (map fst ps)" and "js ''__proto__'' \<notin> fst ` set ps"
  shows "assign_all ps = map (\<lambda>kv. (fst kv, Str (snd kv))) ps"
proof -
  have "foldl (\<lambda>obj kv. obj_assign obj (fst kv) (snd kv)) acc ps =
        foldl (\<lambda>m kv. AList.update (fst kv) (snd kv) m) acc (map (\<lambda>kv. (fst kv, Str (snd kv))) ps)"
    for acc
    using assms(2) by (induction ps arbitrary: acc) (auto simp: obj_assign_def)
  moreover have "distinct (map fst (map (\<lambda>kv. (fst kv, Str (snd kv))) ps))"
    using assms(1) by (simp add: comp_def)
  ultimately show ?thesis
    by (simp add: assign_all_def foldl_update_fresh)
qed

lemma set_object_entries: "set (object_entries obj) = set obj"
  by (auto simp: object_entries_def)

lemma length_object_entries: "length (object_entries obj) = length obj"
  by (simp add: object_entries_def sum_length_filter_compl)

lemma distinct_object_entries:
  assumes "distinct (map fst obj)"
  shows "distinct (map fst (object_entries obj))"
proof -
  have "card (set (map fst (object_entries obj))) = card (set (map fst obj))"
    by (simp add: set_object_entries)
  also have "\<dots> = length (map fst obj)" using assms by (rule distinct_card)
  also have "\<dots> = length (map fst (object_entries obj))"
    by (simp add: length_object_entries)
  finally show ?thesis by (rule card_distinct)
qed

lemma map_of_object_entries:
  "distinct (map fst obj) \<Longrightarrow> map_of (object_entries obj) = map_of obj"
  by (simp add: map_of_inject_set distinct_object_entries set_object_entries)

lemma new_CQCode_distinct:
  "distinct (map fst obj) \<Longrightarrow>
   new_CQCode t (Some obj) = \<lparr>type = t, data = object_entries obj\<rparr>"
  by (simp add: new_CQCode_def new_Map_distinct distinct_object_entries)

text \<open>
  Serializing and parsing a code whose type is a name the pattern accepts and
  whose fields are plain text or numbers: one code comes back, with the same
  type and every value in its string form.
\<close>

lemma roundtrip_general:
  assumes ty: "type e = Str t" "t \<noteq> []" "list_all type_char t"
    and d: "distinct (map fst (data e))" and ok: "list_all serial_ok (data e)"
  shows "cq_from (toString e) =
         Some (Inr [\<lparr>type = Str t,
                     data = object_entries (map (\<lambda>kv. (fst kv, Str (to_string (snd kv)))) (data e))\<rparr>])"
proof -
  let ?ps = "map field_text (data e)"
  let ?obj = "map (\<lambda>kv. (fst kv, Str (to_string (snd kv)))) (data e)"
  have wf: "list_all wf_pair ?ps"
    using ok by (simp add: list_all_iff serial_ok_wf)
  have "scan_all (toString e) = [(t, ?ps)]"
    unfolding toString_plain [OF ty(1) ok] by (rule scan_all_inv [OF ty(2,3) wf])
  then have 1: "cq_from (toString e) = Some (Inr [code_of_match (t, ?ps)])"
    by (simp add: cq_from_def from_loop_scan)
  have 2: "map (\<lambda>kv. (unescape_str (fst kv), unescape_str (snd kv))) ?ps = ?ps"
  proof (rule map_idI)
    fix p assume "p \<in> set ?ps"
    then obtain kv where kv: "kv \<in> set (data e)" and p: "p = field_text kv" by auto
    from kv ok have "serial_ok kv" by (simp add: list_all_iff)
    from serial_ok_text(1,2) [OF this]
    have "AMP \<notin> set (fst kv)" "AMP \<notin> set (to_string (snd kv))"
      by (simp_all add: plain_text_def reserved_free_chars)
    then show "(unescape_str (fst p), unescape_str (snd p)) = p"
      by (simp add: p field_text_def unescape_no_amp)
  qed
  have 3: "assign_all ?ps = ?obj"
  proof -
    have "distinct (map fst ?ps)" using d by (simp add: comp_def field_text_def)
    moreover have "js ''__proto__'' \<notin> fst ` set ?ps"
      using ok by (auto simp: list_all_iff serial_ok_def field_text_def)
    ultimately show ?thesis
      by (simp add: assign_all_distinct comp_def field_text_def)
  qed
  have 4: "distinct (map fst ?obj)" using d by (simp add: comp_def)
  have "code_of_match (t, ?ps) = \<lparr>type = Str t, data = object_entries ?obj\<rparr>"
    unfolding code_of_match_def fst_conv snd_conv 2 3 by (rule new_CQCode_distinct [OF 4])
  with 1 show ?thesis by (simp only:)
qed


lemma plain_field_serial_ok: "plain_field kv \<Longrightarrow> serial_ok kv"
  by (auto simp: plain_field_def serial_ok_def split: jsval.splits)

lemma plain_field_value: "plain_field kv \<Longrightarrow> (fst kv, Str (to_string (snd kv))) = kv"
  by (cases kv) (auto simp: plain_field_def split: jsval.splits)

text \<open>
  C1. Let an inline code have a type that is a string, not empty and without
  \<open>,\<close> \<open>[\<close> \<open>]\<close>, and fields whose keys are not empty and not \<open>__proto__\<close>,
  whose values are all strings, and whose keys and values hold no reserved
  character and no pictographic symbol. Then parsing its serialized string gives
  exactly one code, with the same type and the same keys and values. (The keys
  come back in the order \<open>Object.entries\<close> lists them: array indices first.)
\<close>

theorem parse_serialize_roundtrip:
  assumes "type e = Str t" and "t \<noteq> []" and "list_all type_char t"
    and "distinct (map fst (data e))" and "list_all plain_field (data e)"
  shows "cq_from (toString e) = Some (Inr [e\<lparr>data := object_entries (data e)\<rparr>]) \<and>
         map_of (object_entries (data e)) = map_of (data e)"
proof -
  have ok: "list_all serial_ok (data e)"
    using assms(5) by (simp add: list_all_iff plain_field_serial_ok)
  have "map (\<lambda>kv. (fst kv, Str (to_string (snd kv)))) (data e) = data e"
    using assms(5) by (intro map_idI) (simp add: list_all_iff plain_field_value)
  with roundtrip_general [OF assms(1-4) ok] assms(1,4) show ?thesis
    by (simp add: map_of_object_entries)
qed

theorem parse_serialize_roundtrip_witness:
  "list_all type_char (js ''image'') \<and>
   list_all plain_field [(js ''file'', Str (js ''http://x/y.png'')), (js ''10'', Str (js ''a'')),
                         (js ''2'', Str (js ''b''))] \<and>
   cq_from (toString \<lparr>type = Str (js ''image''),
                       data = [(js ''file'', Str (js ''http://x/y.png'')), (js ''10'', Str (js ''a'')),
                               (js ''2'', Str (js ''b''))]\<rparr>) =
     Some (Inr [\<lparr>type = Str (js ''image''),
                 data = [(js ''2'', Str (js ''b'')), (js ''10'', Str (js ''a'')),
                         (js ''file'', Str (js ''http://x/y.png''))]\<rparr>])"
proof -
  let ?d = "[(js ''file'', Str (js ''http://x/y.png'')), (js ''10'', Str (js ''a'')),
             (js ''2'', Str (js ''b''))]"
  let ?e = "\<lparr>type = Str (js ''image''), data = ?d\<rparr>"
  have h1: "type ?e = Str (js ''image'')" by simp
  have h2: "js ''image'' \<noteq> []" by (simp add: js_def)
  have h3: "list_all type_char (js ''image'')" by code_simp
  have h4: "distinct (map fst (data ?e))" by (simp add: js_def)
  have h5: "list_all plain_field (data ?e)" by code_simp
  have oe: "object_entries ?d = [(js ''2'', Str (js ''b'')), (js ''10'', Str (js ''a'')),
                                 (js ''file'', Str (js ''http://x/y.png''))]"
    by code_simp
  from parse_serialize_roundtrip [OF h1 h2 h3 h4 h5] h3 h5 oe show ?thesis by simp
qed

text \<open>
  Without those conditions the code that comes back differs, or none comes back:
  a pictographic symbol in a value returns as a space; an empty key or an empty
  type makes the text no inline code at all; a comma in the type cuts it short;
  a number returns as its digits; a field holding \<open>undefined\<close> is gone; and so
  is a field named \<open>__proto__\<close>.
\<close>

theorem parse_serialize_counterexample:
  "reserved_free (js ''file'') \<and> reserved_free [0x2600] \<and>
   cq_from (toString \<lparr>type = Str (js ''image''), data = [(js ''file'', Str [0x2600])]\<rparr>) =
     Some (Inr [\<lparr>type = Str (js ''image''), data = [(js ''file'', Str [SPACE])]\<rparr>]) \<and>
   cq_from (toString \<lparr>type = Str (js ''a''), data = [([], Str (js ''v''))]\<rparr>) = Some (Inr []) \<and>
   cq_from (toString \<lparr>type = Str [], data = []\<rparr>) = Some (Inr []) \<and>
   cq_from (toString \<lparr>type = Str (js ''a,b=c''), data = []\<rparr>) =
     Some (Inr [\<lparr>type = Str (js ''a''), data = [(js ''b'', Str (js ''c''))]\<rparr>]) \<and>
   cq_from (toString \<lparr>type = Str (js ''reply''), data = [(js ''id'', Num 9)]\<rparr>) =
     Some (Inr [\<lparr>type = Str (js ''reply''), data = [(js ''id'', Str (js ''9''))]\<rparr>]) \<and>
   cq_from (toString \<lparr>type = Str (js ''image''),
                       data = [(js ''file'', Str (js ''x'')), (js ''type'', Undefined)]\<rparr>) =
     Some (Inr [\<lparr>type = Str (js ''image''), data = [(js ''file'', Str (js ''x''))]\<rparr>]) \<and>
   cq_from (toString \<lparr>type = Str (js ''a''), data = [(js ''__proto__'', Str (js ''x''))]\<rparr>) =
     Some (Inr [\<lparr>type = Str (js ''a''), data = []\<rparr>])"
  by code_simp


section \<open>The parser against its specification\<close>

lemma assign_all_update:
  assumes "js ''__proto__'' \<notin> fst ` set ps"
  shows "assign_all ps = foldl (\<lambda>fs kv. AList.update (fst kv) (Str (snd kv)) fs) [] ps"
proof -
  have "foldl (\<lambda>obj kv. obj_assign obj (fst kv) (snd kv)) acc ps =
        foldl (\<lambda>fs kv. AList.update (fst kv) (Str (snd kv)) fs) acc ps" for acc
    using assms by (induction ps arbitrary: acc) (auto simp: obj_assign_def)
  then show ?thesis by (simp add: assign_all_def)
qed

lemma keys_foldl_update:
  "fst ` set (foldl (\<lambda>fs kv. AList.update (f kv) (g kv) fs) acc ps) = fst ` set acc \<union> f ` set ps"
  by (induction ps arbitrary: acc) (auto simp: dom_update)

lemma distinct_foldl_update:
  "distinct (map fst acc) \<Longrightarrow>
   distinct (map fst (foldl (\<lambda>fs kv. AList.update (f kv) (g kv) fs) acc ps))"
  by (induction ps arbitrary: acc) (simp_all add: distinct_update)

lemma keys_spec_fields:
  "fst ` set (spec_fields pairs) = (\<lambda>kv. spec_unescape (fst kv)) ` set pairs"
  by (simp add: spec_fields_def keys_foldl_update)

lemma distinct_spec_fields: "distinct (map fst (spec_fields pairs))"
  by (simp add: spec_fields_def distinct_foldl_update)

lemma code_of_match_spec:
  assumes "js ''__proto__'' \<notin> fst ` set (spec_fields (snd c))"
  shows "code_of_match c = \<lparr>type = Str (fst c), data = object_entries (spec_fields (snd c))\<rparr>"
proof -
  let ?ps = "map (\<lambda>kv. (unescape_str (fst kv), unescape_str (snd kv))) (snd c)"
  have "fst ` set ?ps = (\<lambda>kv. spec_unescape (fst kv)) ` set (snd c)"
    by (simp add: image_image unescape_spec)
  with assms have "js ''__proto__'' \<notin> fst ` set ?ps"
    by (simp add: keys_spec_fields)
  then have "assign_all ?ps =
      foldl (\<lambda>fs kv. AList.update (fst kv) (Str (snd kv)) fs) [] ?ps"
    by (rule assign_all_update)
  also have "\<dots> = spec_fields (snd c)"
    by (simp add: spec_fields_def foldl_map unescape_spec)
  finally show ?thesis
    by (simp add: code_of_match_def new_CQCode_distinct distinct_spec_fields)
qed

text \<open>
  Where no pair of a text has the key \<^verbatim>\<open>__proto__\<close>, \<^verbatim>\<open>CQCode.from\<close> returns the
  entities the specification describes, code for code: the same types, and
  the same fields with the same values, listed in the order of
  \<^verbatim>\<open>Object.entries\<close> (array-index keys first).
\<close>

lemma from_agrees_with_spec:
  assumes "list_all (\<lambda>e. js ''__proto__'' \<notin> fst ` set (data e)) (spec_parseAll s)"
  shows "cq_from s =
           Some (Inr (map (\<lambda>e. e\<lparr>data := object_entries (data e)\<rparr>) (spec_parseAll s))) \<and>
         list_all (\<lambda>e. map_of (object_entries (data e)) = map_of (data e)) (spec_parseAll s)"
proof -
  have "code_of_match c = \<lparr>type = Str (fst c), data = object_entries (spec_fields (snd c))\<rparr>"
    if "c \<in> set (scan_all s)" for c
    using assms that by (intro code_of_match_spec) (simp add: spec_parseAll_def list_all_iff)
  then have "map code_of_match (scan_all s) =
             map (\<lambda>e. e\<lparr>data := object_entries (data e)\<rparr>) (spec_parseAll s)"
    by (simp add: spec_parseAll_def)
  then have "cq_from s =
             Some (Inr (map (\<lambda>e. e\<lparr>data := object_entries (data e)\<rparr>) (spec_parseAll s)))"
    by (simp add: cq_from_def from_loop_scan)
  moreover have "list_all (\<lambda>e. map_of (object_entries (data e)) = map_of (data e))
                   (spec_parseAll s)"
    by (simp add: spec_parseAll_def list_all_iff map_of_object_entries distinct_spec_fields)
  ultimately show ?thesis by simp
qed

lemma from_agrees_with_spec_example:
  "cq_from (js ''hello [CQ:at,qq=123] world [CQ:a,b=c=d&#44;,7=&#91;,b=e]'') =
     Some (Inr [\<lparr>type = Str (js ''at''), data = [(js ''qq'', Str (js ''123''))]\<rparr>,
                \<lparr>type = Str (js ''a''),
                  data = [(js ''7'', Str (js ''['')), (js ''b'', Str (js ''e''))]\<rparr>]) \<and>
   spec_parseAll (js ''hello [CQ:at,qq=123] world [CQ:a,b=c=d&#44;,7=&#91;,b=e]'') =
     [\<lparr>type = Str (js ''at''), data = [(js ''qq'', Str (js ''123''))]\<rparr>,
      \<lparr>type = Str (js ''a''), data = [(js ''b'', Str (js ''e'')), (js ''7'', Str (js ''[''))]\<rparr>]"
proof -
  let ?s = "js ''hello [CQ:at,qq=123] world [CQ:a,b=c=d&#44;,7=&#91;,b=e]''"
  have p: "spec_parseAll ?s =
     [\<lparr>type = Str (js ''at''), data = [(js ''qq'', Str (js ''123''))]\<rparr>,
      \<lparr>type = Str (js ''a''), data = [(js ''b'', Str (js ''e'')), (js ''7'', Str (js ''[''))]\<rparr>]"
    by code_simp
  have h: "list_all (\<lambda>e. js ''__proto__'' \<notin> fst ` set (data e)) (spec_parseAll ?s)"
    unfolding p by (simp add: js_def)
  have o1: "object_entries [(js ''qq'', Str (js ''123''))] = [(js ''qq'', Str (js ''123''))]"
    by code_simp
  have o2: "object_entries [(js ''b'', Str (js ''e'')), (js ''7'', Str (js ''[''))] =
            [(js ''7'', Str (js ''['')), (js ''b'', Str (js ''e''))]"
    by code_simp
  from from_agrees_with_spec [OF h] p o1 o2 show ?thesis by simp
qed

text \<open>
  C6. The claim: for every text, \<open>CQCode.from\<close> returns the inline codes that
  match the grammar \<open>[CQ:type(,key=value)*]\<close>, in the order they stand in the
  text, none overlapping another; the type is taken as it stands, each pair is
  split at its first \<open>=\<close>, and key and value are unescaped. The code departs
  from it where a pair has the key \<^verbatim>\<open>__proto__\<close>. For the text
  \<^verbatim>\<open>[CQ:a,__proto__=x]\<close> the parser as specified returns one entity of type
  \<open>a\<close> with the field \<^verbatim>\<open>__proto__\<close> set to \<open>x\<close>; \<open>CQCode.from\<close> returns one code
  of type \<open>a\<close> with no field, and among other fields it loses that one alone.
  The loop assigns each pair with \<^verbatim>\<open>obj[key] = value\<close> into an object made by
  \<^verbatim>\<open>{}\<close>, where that key is not a property but the setter of the prototype.
\<close>

theorem from_drops_proto_field:
  "spec_parseAll (js ''[CQ:a,__proto__=x]'') =
     [\<lparr>type = Str (js ''a''), data = [(js ''__proto__'', Str (js ''x''))]\<rparr>] \<and>
   cq_from (js ''[CQ:a,__proto__=x]'') = Some (Inr [\<lparr>type = Str (js ''a''), data = []\<rparr>]) \<and>
   spec_parseAll (js ''[CQ:image,file=a.png,__proto__=x]'') =
     [\<lparr>type = Str (js ''image''),
       data = [(js ''file'', Str (js ''a.png'')), (js ''__proto__'', Str (js ''x''))]\<rparr>] \<and>
   cq_from (js ''[CQ:image,file=a.png,__proto__=x]'') =
     Some (Inr [\<lparr>type = Str (js ''image''), data = [(js ''file'', Str (js ''a.png''))]\<rparr>])"
proof -
  have spec1: "spec_parseAll (js ''[CQ:a,__proto__=x]'') =
      [\<lparr>type = Str (js ''a''), data = [(js ''__proto__'', Str (js ''x''))]\<rparr>]"
    by code_simp
  have code1: "cq_from (js ''[CQ:a,__proto__=x]'') =
      Some (Inr [\<lparr>type = Str (js ''a''), data = []\<rparr>])"
    by code_simp
  have spec2: "spec_parseAll (js ''[CQ:image,file=a.png,__proto__=x]'') =
      [\<lparr>type = Str (js ''image''),
        data = [(js ''file'', Str (js ''a.png'')), (js ''__proto__'', Str (js ''x''))]\<rparr>]"
    by code_simp
  have code2: "cq_from (js ''[CQ:image,file=a.png,__proto__=x]'') =
      Some (Inr [\<lparr>type = Str (js ''image''), data = [(js ''file'', Str (js ''a.png''))]\<rparr>])"
    by code_simp
  show ?thesis by (intro conjI spec1 code1 spec2 code2)
qed

section \<open>What parsing yields is text\<close>

lemma string_valued_iff: "string_valued m \<longleftrightarrow> (\<forall>kv \<in> set m. is_Str (snd kv))"
  by (simp add: string_valued_def list_all_iff is_Str_def)

lemma is_Str_update:
  "\<forall>kv \<in> set m. is_Str (snd kv) \<Longrightarrow> is_Str v \<Longrightarrow>
   \<forall>kv \<in> set (AList.update k v m). is_Str (snd kv)"
  by (induction m) auto

lemma string_valued_update:
  "string_valued m \<Longrightarrow> is_Str v \<Longrightarrow> string_valued (AList.update k v m)"
  unfolding string_valued_iff by (rule is_Str_update)

lemma string_valued_assign_all: "string_valued (assign_all ps)"
proof -
  have "string_valued acc \<Longrightarrow>
        string_valued (foldl (\<lambda>obj kv. obj_assign obj (fst kv) (snd kv)) acc ps)" for acc
    by (induction ps arbitrary: acc)
       (simp_all add: obj_assign_def string_valued_update is_Str_def)
  then show ?thesis by (simp add: assign_all_def string_valued_def)
qed

lemma string_valued_new_Map: "string_valued xs \<Longrightarrow> string_valued (new_Map xs)"
proof -
  have "string_valued acc \<Longrightarrow> string_valued xs \<Longrightarrow>
        string_valued (foldl (\<lambda>m kv. AList.update (fst kv) (snd kv) m) acc xs)" for acc
  proof (induction xs arbitrary: acc)
    case Nil
    then show ?case by simp
  next
    case (Cons x xs)
    from Cons.prems(2) have "is_Str (snd x)" and xs: "string_valued xs"
      by (simp_all add: string_valued_iff)
    with Cons.prems(1) have "string_valued (AList.update (fst x) (snd x) acc)"
      by (simp add: string_valued_update)
    from Cons.IH [OF this xs] show ?case by simp
  qed
  then show "string_valued xs \<Longrightarrow> string_valued (new_Map xs)"
    by (simp add: new_Map_def string_valued_def)
qed

lemma string_valued_code_of_match: "string_valued (data (code_of_match c))"
  by (simp add: code_of_match_def new_CQCode_def string_valued_new_Map
      string_valued_iff [of "object_entries obj" for obj] set_object_entries
      string_valued_assign_all [unfolded string_valued_iff])

lemma reply_Num:
  "cq_from (reply (Num n)) =
     Some (Inr [\<lparr>type = Str (js ''reply''), data = [(js ''id'', Str (number_to_string n))]\<rparr>])"
proof -
  let ?e = "\<lparr>type = Str (js ''reply''), data = [(js ''id'', Num n)]\<rparr>"
  have e: "new_CQCode (Str (js ''reply'')) (Some [(js ''id'', Num n)]) = ?e"
    by (simp add: new_CQCode_def new_Map_def object_entries_def is_array_index_def
        is_digit_def js_def)
  have oe: "object_entries [(js ''id'', Str (number_to_string n))] =
            [(js ''id'', Str (number_to_string n))]"
    by (simp add: object_entries_def is_array_index_def is_digit_def js_def)
  have "list_all type_char (js ''reply'')" by (simp add: js_def type_char_def)
  moreover have "list_all serial_ok (data ?e)"
    by (simp add: serial_ok_def plain_text_def reserved_free_def js_def pictograph1_def
        pictograph2_def)
  ultimately have "cq_from (toString ?e) =
      Some (Inr [\<lparr>type = Str (js ''reply''),
                  data = object_entries (map (\<lambda>kv. (fst kv, Str (to_string (snd kv)))) (data ?e))\<rparr>])"
    by (intro roundtrip_general) (simp_all add: js_def)
  then show ?thesis by (simp add: reply_def e oe)
qed

lemma at_Num:
  "cq_from (at (Num n)) =
     Some (Inr [\<lparr>type = Str (js ''at''), data = [(js ''qq'', Str (number_to_string n))]\<rparr>])"
proof -
  let ?e = "\<lparr>type = Str (js ''at''), data = [(js ''qq'', Num n)]\<rparr>"
  have e: "new_CQCode (Str (js ''at'')) (Some [(js ''qq'', Num n)]) = ?e"
    by (simp add: new_CQCode_def new_Map_def object_entries_def is_array_index_def
        is_digit_def js_def)
  have oe: "object_entries [(js ''qq'', Str (number_to_string n))] =
            [(js ''qq'', Str (number_to_string n))]"
    by (simp add: object_entries_def is_array_index_def is_digit_def js_def)
  have "list_all type_char (js ''at'')" by (simp add: js_def type_char_def)
  moreover have "list_all serial_ok (data ?e)"
    by (simp add: serial_ok_def plain_text_def reserved_free_def js_def pictograph1_def
        pictograph2_def)
  ultimately have "cq_from (toString ?e) =
      Some (Inr [\<lparr>type = Str (js ''at''),
                  data = object_entries (map (\<lambda>kv. (fst kv, Str (to_string (snd kv)))) (data ?e))\<rparr>])"
    by (intro roundtrip_general) (simp_all add: js_def)
  then show ?thesis by (simp add: at_def e oe)
qed

text \<open>
  C10. Every code \<open>CQCode.from\<close> produces has string values only. So
  serializing a code that holds a number, as \<open>reply(n)\<close> and \<open>at(n)\<close> do for an
  integer \<open>n\<close> (here: within the safe range of a double), and parsing the
  result gives the decimal digits of \<open>n\<close> as a string, not \<open>n\<close>:
  serialize-then-parse is not the identity on such codes.
\<close>

theorem from_yields_strings:
  assumes "\<bar>n\<bar> \<le> 9007199254740991"
  shows "(\<forall>codes. cq_from s = Some (Inr codes) \<longrightarrow> list_all (\<lambda>c. string_valued (data c)) codes) \<and>
         cq_from (reply (Num n)) =
           Some (Inr [\<lparr>type = Str (js ''reply''), data = [(js ''id'', Str (number_to_string n))]\<rparr>]) \<and>
         cq_from (at (Num n)) =
           Some (Inr [\<lparr>type = Str (js ''at''), data = [(js ''qq'', Str (number_to_string n))]\<rparr>]) \<and>
         cq_from (reply (Num n)) \<noteq>
           Some (Inr [new_CQCode (Str (js ''reply'')) (Some [(js ''id'', Num n)])])"
proof -
  have "list_all (\<lambda>c. string_valued (data c)) (map code_of_match (scan_all s))"
    by (simp add: list_all_iff string_valued_code_of_match)
  then have 1: "\<forall>codes. cq_from s = Some (Inr codes) \<longrightarrow> list_all (\<lambda>c. string_valued (data c)) codes"
    by (simp add: cq_from_def from_loop_scan)
  have "new_CQCode (Str (js ''reply'')) (Some [(js ''id'', Num n)]) =
        \<lparr>type = Str (js ''reply''), data = [(js ''id'', Num n)]\<rparr>"
    by (simp add: new_CQCode_def new_Map_def object_entries_def is_array_index_def
        is_digit_def js_def)
  then have 2: "cq_from (reply (Num n)) \<noteq>
                Some (Inr [new_CQCode (Str (js ''reply'')) (Some [(js ''id'', Num n)])])"
    by (simp add: reply_Num)
  from 1 2 show ?thesis by (simp add: reply_Num at_Num)
qed

theorem from_yields_strings_witness:
  "\<bar>9 :: int\<bar> \<le> 9007199254740991 \<and>
   cq_from (js ''[CQ:at,qq=123]'') = Some (Inr [\<lparr>type = Str (js ''at''), data = [(js ''qq'', Str (js ''123''))]\<rparr>]) \<and>
   list_all (\<lambda>c. string_valued (data c))
     [\<lparr>type = Str (js ''at''), data = [(js ''qq'', Str (js ''123''))]\<rparr>] \<and>
   reply (Num 9) = js ''[CQ:reply,id=9]'' \<and>
   cq_from (reply (Num 9)) =
     Some (Inr [\<lparr>type = Str (js ''reply''), data = [(js ''id'', Str (js ''9''))]\<rparr>]) \<and>
   cq_from (at (Num 123)) =
     Some (Inr [\<lparr>type = Str (js ''at''), data = [(js ''qq'', Str (js ''123''))]\<rparr>])"
proof -
  have h: "\<bar>9 :: int\<bar> \<le> 9007199254740991" by simp
  have h': "\<bar>123 :: int\<bar> \<le> 9007199254740991" by simp
  have p: "cq_from (js ''[CQ:at,qq=123]'') =
           Some (Inr [\<lparr>type = Str (js ''at''), data = [(js ''qq'', Str (js ''123''))]\<rparr>])"
    by code_simp
  have n9: "number_to_string 9 = js ''9''" by code_simp
  have n123: "number_to_string 123 = js ''123''" by code_simp
  have r: "reply (Num 9) = js ''[CQ:reply,id=9]''" by code_simp
  from from_yields_strings [OF h, of "js ''[CQ:at,qq=123]''"] from_yields_strings [OF h', of "[]"]
    p n9 n123 r
  show ?thesis by simp
qed

section \<open>Pre-downloading\<close>

text \<open>
  C2. If a stage of \<open>imgPreDl\<close> fails (the cache lookup throws, the download
  fails, or the cache write throws), the call logs through \<^verbatim>\<open>logError\<close> at least
  once and returns the serialized \<open>img(url, type)\<close>; it has no way to throw:
  every failure of a collaborator is caught. With a transport that always fails
  and an empty cache the result is \<open>img(url, undefined)\<close>.
\<close>

theorem imgPreDl_falls_back:
  assumes "failing env url config"
  shows "fst (imgPreDl env url t config) = img (Str url) t \<and>
         1 \<le> log_count (snd (imgPreDl env url t config))"
  using assms
  by (auto simp: failing_def imgPreDl_def before_await_def after_await_def on_error_def
      log_count_def Let_def split: sum.splits option.splits if_splits)

theorem imgPreDl_falls_back_witness:
  "failing no_network (js ''http://x/y.png'') [] \<and>
   imgPreDl no_network (js ''http://x/y.png'') Undefined [] =
     (js ''[CQ:image,file=http://x/y.png]'',
      [Lookup (js ''http://x/y.png''), Acquire,
       Get (js ''http://x/y.png'') [(js ''responseType'', Str (js ''arraybuffer''))], Release,
       Logged (Text (js ''[error] cq img pre-download'')),
       Logged (Detail (Thrown (js ''ECONNREFUSED'')))]) \<and>
   img (Str (js ''http://x/y.png'')) Undefined = js ''[CQ:image,file=http://x/y.png]''"
proof -
  have h: "failing no_network (js ''http://x/y.png'') []"
    by (simp add: failing_def no_network_def)
  have i: "img (Str (js ''http://x/y.png'')) Undefined = js ''[CQ:image,file=http://x/y.png]''"
    by code_simp
  have r: "request_config [] = [(js ''responseType'', Str (js ''arraybuffer''))]"
    by (simp add: request_config_def object_entries_def)
  have "snd (imgPreDl no_network (js ''http://x/y.png'') Undefined []) =
      [Lookup (js ''http://x/y.png''), Acquire,
       Get (js ''http://x/y.png'') [(js ''responseType'', Str (js ''arraybuffer''))], Release,
       Logged (Text (js ''[error] cq img pre-download'')),
       Logged (Detail (Thrown (js ''ECONNREFUSED'')))]"
    by (simp add: imgPreDl_def before_await_def after_await_def on_error_def no_network_def r)
  with imgPreDl_falls_back [OF h, of Undefined] h i show ?thesis
    by (simp add: prod_eq_iff)
qed

text \<open>
  C9. On a cache hit (the lookup returns a path, which is a string that is not
  empty) \<open>imgPreDl\<close> looks the url up and does nothing else to the outside: no
  limiter slot, no transport call. It returns the image code whose \<open>file\<close> is
  the \<^verbatim>\<open>URL\<close> that \<^verbatim>\<open>pathToFileURL\<close> makes of the path, not the path.
\<close>

theorem imgPreDl_cache_hit:
  assumes "getCache env url = Inr (Some path)" and "path \<noteq> []"
  shows "imgPreDl env url t config =
           (toString (new_CQCode (Str (js ''image''))
              (Some [(js ''file'', Url (pathToFileURL env path)), (js ''type'', t)])),
            [Lookup url]) \<and>
         \<not> uses_network (snd (imgPreDl env url t config))"
  using assms
  by (simp add: imgPreDl_def before_await_def on_path_def img_def uses_network_def)

theorem imgPreDl_cache_hit_witness:
  "getCache cached_env (js ''http://x/y.png'') = Inr (Some (js ''/cache/ab12'')) \<and>
   js ''/cache/ab12'' \<noteq> [] \<and>
   imgPreDl cached_env (js ''http://x/y.png'') (Str (js ''flash'')) [] =
     (js ''[CQ:image,file=file:///cache/ab12,type=flash]'', [Lookup (js ''http://x/y.png'')])"
proof -
  have h1: "getCache cached_env (js ''http://x/y.png'') = Inr (Some (js ''/cache/ab12''))"
    by (simp add: cached_env_def)
  have h2: "js ''/cache/ab12'' \<noteq> []" by (simp add: js_def)
  have "toString (new_CQCode (Str (js ''image''))
          (Some [(js ''file'', Url (pathToFileURL cached_env (js ''/cache/ab12''))),
                 (js ''type'', Str (js ''flash''))])) =
        js ''[CQ:image,file=file:///cache/ab12,type=flash]''"
    unfolding cached_env_def by code_simp
  with imgPreDl_cache_hit [OF h1 h2, of "Str (js ''flash'')" "[]"] h1 h2 show ?thesis
    by simp
qed

section \<open>The limiter's bound\<close>

lemma count_update:
  assumes "i < length cs"
  shows "length (filter P (cs[i := c])) + (if P (cs ! i) then 1 else 0) =
         length (filter P cs) + (if P c then 1 else 0)"
proof -
  have e1: "filter P cs = filter P (take i cs @ cs ! i # drop (Suc i) cs)"
    by (rule arg_cong [OF id_take_nth_drop [OF assms]])
  have e2: "filter P (cs[i := c]) = filter P (take i cs @ c # drop (Suc i) cs)"
    by (simp only: upd_conv_take_nth_drop [OF assms])
  show ?thesis
    unfolding e1 e2 by simp
qed

lemma in_flight_launch:
  assumes "i < length cs" and "p_pc (cs ! i) = Suspended"
  shows "length (filter (\<lambda>c. p_pc c = InFlight) (launch i cs)) =
         Suc (length (filter (\<lambda>c. p_pc c = InFlight) cs))"
  using count_update [OF assms(1), of "\<lambda>c. p_pc c = InFlight" "(cs ! i)\<lparr>p_pc := InFlight\<rparr>"] assms
  by (simp add: launch_def)

lemma in_flight_return:
  assumes "i < length cs" and "p_pc (cs ! i) = InFlight"
  shows "Suc (length (filter (\<lambda>c. p_pc c = InFlight) (cs[i := (cs ! i)\<lparr>p_pc := Returned r\<rparr>]))) =
         length (filter (\<lambda>c. p_pc c = InFlight) cs)"
  using count_update [OF assms(1), of "\<lambda>c. p_pc c = InFlight" "(cs ! i)\<lparr>p_pc := Returned r\<rparr>"] assms
  by simp

lemma launch_length: "length (launch i cs) = length cs"
  by (simp add: launch_def)

lemma launch_other: "j \<noteq> i \<Longrightarrow> launch i cs ! j = cs ! j"
  by (simp add: launch_def)

lemma jobs_kept:
  assumes "list_all (\<lambda>j. j < length cs \<and> p_pc (cs ! j) = Suspended) q" and "i \<notin> set q"
    and "length cs' = length cs" and "\<And>j. j \<noteq> i \<Longrightarrow> cs' ! j = cs ! j"
  shows "list_all (\<lambda>j. j < length cs' \<and> p_pc (cs' ! j) = Suspended) q"
  unfolding list_all_iff
proof (intro ballI)
  fix j assume j: "j \<in> set q"
  with assms(2) have "j \<noteq> i" by auto
  with assms(1,3,4) j show "j < length cs' \<and> p_pc (cs' ! j) = Suspended"
    by (simp add: list_all_iff)
qed

text \<open>Handing a new, suspended call to the limiter keeps the limiter's books right.\<close>

lemma limiter_ok_submit:
  assumes "limiter_ok s" and "i < length (calls s)" and "p_pc (calls s ! i) = Suspended"
    and "i \<notin> set (jobs s)"
  shows "limiter_ok (limiter_submit i s)"
proof (cases "outstanding s < dlImgLimit")
  case True
  have "list_all (\<lambda>j. j < length (calls s) \<and> p_pc (calls s ! j) = Suspended) (jobs s)"
    using assms(1) by (simp add: limiter_ok_def)
  then have "list_all (\<lambda>j. j < length (launch i (calls s)) \<and> p_pc (launch i (calls s) ! j) = Suspended) (jobs s)"
    using assms(4) by (rule jobs_kept) (simp_all add: launch_length launch_other)
  with True assms(1) in_flight_launch [OF assms(2,3)] show ?thesis
    by (simp add: limiter_ok_def limiter_submit_def in_flight_def)
next
  case False
  with assms show ?thesis
    by (simp add: limiter_ok_def limiter_submit_def in_flight_def)
qed

text \<open>
  Releasing a slot after a download has settled: the books, one running job
  too high, are right again.
\<close>

lemma limiter_ok_release:
  assumes "outstanding s = Suc (in_flight s)" and "outstanding s \<le> dlImgLimit"
    and "distinct (jobs s)"
    and "list_all (\<lambda>j. j < length (calls s) \<and> p_pc (calls s ! j) = Suspended) (jobs s)"
  shows "limiter_ok (limiter_release s)"
proof (cases "jobs s")
  case Nil
  with assms show ?thesis
    by (simp add: limiter_ok_def limiter_release_def in_flight_def)
next
  case (Cons j q)
  from assms(4) Cons have j: "j < length (calls s)" "p_pc (calls s ! j) = Suspended"
    by simp_all
  from assms(3) Cons have jq: "j \<notin> set q" "distinct q" by simp_all
  have "list_all (\<lambda>k. k < length (calls s) \<and> p_pc (calls s ! k) = Suspended) q"
    using assms(4) Cons by simp
  then have "list_all (\<lambda>k. k < length (launch j (calls s)) \<and> p_pc (launch j (calls s) ! k) = Suspended) q"
    using jq(1) by (rule jobs_kept) (simp_all add: launch_length launch_other)
  with assms(1,2) Cons jq(2) in_flight_launch [OF j] show ?thesis
    by (simp add: limiter_ok_def limiter_release_def in_flight_def Let_def)
qed

lemma limiter_ok_step:
  assumes "limiter_ok s"
  shows "limiter_ok (step toURL s ev)"
proof (cases ev)
  case (Call url t config looked)
  show ?thesis
  proof (cases "before_await toURL url t looked")
    case (Some r)
    have "list_all (\<lambda>j. j < length (calls s) \<and> p_pc (calls s ! j) = Suspended) (jobs s)"
      using assms by (simp add: limiter_ok_def)
    then have "list_all (\<lambda>j. j < Suc (length (calls s)) \<and>
                 p_pc ((calls s @ [\<lparr>p_url = url, p_type = t, p_config = config, p_pc = Returned (fst r)\<rparr>]) ! j) = Suspended)
               (jobs s)"
      by (auto simp: list_all_iff nth_append)
    with assms Call Some show ?thesis
      by (simp add: limiter_ok_def in_flight_def)
  next
    case None
    let ?c = "\<lparr>p_url = url, p_type = t, p_config = config, p_pc = Suspended\<rparr>"
    let ?s = "s\<lparr>calls := calls s @ [?c]\<rparr>"
    have old: "list_all (\<lambda>j. j < length (calls s) \<and> p_pc (calls s ! j) = Suspended) (jobs s)"
      using assms by (simp add: limiter_ok_def)
    then have "list_all (\<lambda>j. j < Suc (length (calls s)) \<and> p_pc ((calls s @ [?c]) ! j) = Suspended) (jobs s)"
      by (auto simp: list_all_iff nth_append)
    with assms have ok: "limiter_ok ?s"
      by (simp add: limiter_ok_def in_flight_def)
    have fresh: "length (calls s) \<notin> set (jobs s)"
      using old by (auto simp: list_all_iff)
    have "limiter_ok (limiter_submit (length (calls s)) ?s)"
      using fresh by (intro limiter_ok_submit [OF ok]) simp_all
    with Call None show ?thesis by simp
  qed
next
  case (Settle i settled stored)
  show ?thesis
  proof (cases "i < length (calls s) \<and> p_pc (calls s ! i) = InFlight")
    case False
    with assms Settle show ?thesis by auto
  next
    case True
    then have i: "i < length (calls s)" "p_pc (calls s ! i) = InFlight" by simp_all
    let ?r = "fst (after_await toURL (p_url (calls s ! i)) (p_type (calls s ! i)) settled (\<lambda>d. stored))"
    let ?cs = "(calls s)[i := (calls s ! i)\<lparr>p_pc := Returned ?r\<rparr>]"
    let ?s = "s\<lparr>calls := ?cs\<rparr>"
    from assms have old: "list_all (\<lambda>j. j < length (calls s) \<and> p_pc (calls s ! j) = Suspended) (jobs s)"
      and d: "distinct (jobs s)" and o: "outstanding s = in_flight s" "outstanding s \<le> dlImgLimit"
      by (simp_all add: limiter_ok_def)
    have "i \<notin> set (jobs s)" using old i(2) by (auto simp: list_all_iff)
    with old have "list_all (\<lambda>j. j < length ?cs \<and> p_pc (?cs ! j) = Suspended) (jobs s)"
      by (rule jobs_kept) simp_all
    then have 4: "list_all (\<lambda>j. j < length (calls ?s) \<and> p_pc (calls ?s ! j) = Suspended) (jobs ?s)"
      by simp
    have 1: "outstanding ?s = Suc (in_flight ?s)"
      using in_flight_return [OF i, of ?r] o(1) by (simp add: in_flight_def)
    have "limiter_ok (limiter_release ?s)"
      using 1 o(2) d 4 by (intro limiter_ok_release) simp_all
    with Settle True show ?thesis by (simp add: Let_def)
  qed
qed

lemma limiter_ok_idle: "limiter_ok idle"
  by (simp add: limiter_ok_def idle_def in_flight_def)

lemma limiter_ok_foldl: "limiter_ok s \<Longrightarrow> limiter_ok (foldl (step toURL) s evs)"
  by (induction evs arbitrary: s) (simp_all add: limiter_ok_step)

lemma step_Call_miss:
  "step toURL s (Call url t config (Inr None)) =
     limiter_submit (length (calls s))
       (s\<lparr>calls := calls s @ [\<lparr>p_url = url, p_type = t, p_config = config, p_pc = Suspended\<rparr>]\<rparr>)"
  by (simp add: before_await_def)

lemma twenty_calls:
  "in_flight (run toURL (replicate 20 (Call url t config (Inr None)))) = 4 \<and>
   jobs (run toURL (replicate 20 (Call url t config (Inr None)))) =
     [4, 5, 6, 7, 8, 9, 10, 11, 12, 13, 14, 15, 16, 17, 18, 19]"
  by (simp add: eval_nat_numeral run_def idle_def step_Call_miss limiter_submit_def
      launch_def dlImgLimit_def in_flight_def nth_append del: step.simps)

lemma twenty_calls_one_settled:
  "in_flight (run toURL (replicate 20 (Call url t config (Inr None)) @ [Settle 0 settled stored])) = 4 \<and>
   jobs (run toURL (replicate 20 (Call url t config (Inr None)) @ [Settle 0 settled stored])) =
     [5, 6, 7, 8, 9, 10, 11, 12, 13, 14, 15, 16, 17, 18, 19]"
  by (simp add: eval_nat_numeral run_def idle_def step_Call_miss limiter_submit_def
      limiter_release_def launch_def dlImgLimit_def in_flight_def nth_append Let_def
      del: step.simps(1))

text \<open>
  C8. Whatever calls are made and in whatever order their downloads settle, at
  most four downloads are in flight at any time. Twenty calls that all miss the
  cache leave four in flight and sixteen in the queue; when one settles, the
  next in the queue starts.
\<close>

theorem at_most_four_in_flight:
  "in_flight (run toURL evs) \<le> 4 \<and>
   in_flight (run toURL (replicate 20 (Call url t config (Inr None)))) = 4 \<and>
   length (jobs (run toURL (replicate 20 (Call url t config (Inr None))))) = 16 \<and>
   in_flight (run toURL (replicate 20 (Call url t config (Inr None)) @ [Settle 0 settled stored])) = 4"
proof -
  have "limiter_ok (run toURL evs)"
    unfolding run_def by (rule limiter_ok_foldl [OF limiter_ok_idle])
  then have "in_flight (run toURL evs) \<le> 4"
    by (simp add: limiter_ok_def dlImgLimit_def)
  with twenty_calls [of toURL url t config] twenty_calls_one_settled [of toURL url t config settled stored]
  show ?thesis by simp
qed

end
